theory Spec2Isabelle
  imports Main "HOL-Library.Word"
begin

unbundle bit_operations_syntax

section \<open>The pattern matcher (pattern/match.go)\<close>

subsection \<open>Host values: what the Go code passes around as \<open>any\<close>\<close>

text \<open>
  Panics of the Go code are values of \<open>error\<close>; every function that can panic returns
  \<open>error + result\<close>, with \<open>Inl\<close> the panic.
\<close>

datatype error =
    BindingAlreadyCreated string
  | StackNotEmpty nat
  | FieldNotFound string
  | UnhandledType
  | UnhandledKind
  | Unreachable
  | NilDereference
  | IndexOutOfRange
  | TypeAssertion

text \<open>
  A \<open>*types.TypeName\<close> as \<open>Symbol.Match\<close> reads it: whether \<open>obj.Parent()\<close> is
  \<open>obj.Pkg().Scope()\<close>, the string \<open>types.TypeString(obj.Type(), nil)\<close>, and, when
  \<open>obj.IsAlias()\<close> holds, what \<open>types.Unalias(obj.Type())\<close> is: a type with an
  \<open>Obj()\<close> method (and that object), a \<open>*types.Basic\<close> (and its name), or another type.
\<close>

datatype typename =
  TypeName (tn_id: nat) (parent_is_pkg_scope: bool) (type_string: string) (alias_target: "unaliased option")
and unaliased =
    HasObj typename
  | IsBasic string
  | OtherType

text \<open>
  A \<open>types.Object\<close>. The first field is the identity of the object (Go compares objects
  as pointers). \<open>OConst\<close> and \<open>OVar\<close> carry the path of \<open>obj.Pkg()\<close> (\<open>None\<close> for a nil
  package), whether \<open>obj.Parent()\<close> is the package scope, and \<open>obj.Name()\<close>.
\<close>

datatype tobj =
    OFunc nat string
  | OBuiltin nat string
  | OTypeName typename
  | OConst nat "string option" bool string
  | OVar nat "string option" bool string
  | OOther nat

datatype stype = ExprSlice | StmtSlice | FieldSlice | OtherSlice

text \<open>
  Host values. \<open>VNil\<close> is the nil interface; \<open>VNode k fs\<close> a non-nil pointer to the
  \<open>go/ast\<close> struct named \<open>k\<close> with its fields in declaration order; \<open>VNilNode k\<close> the nil
  pointer of that type; \<open>VSlice t None\<close> a nil slice and \<open>VSlice t (Some xs)\<close> a non-nil one
  (\<open>[]ast.Expr\<close>, \<open>[]ast.Stmt\<close>, \<open>[]*ast.Field\<close> or any other slice type);
  \<open>VToken\<close> a \<open>token.Token\<close>, written by the name of its constant; \<open>VPos\<close> a
  \<open>token.Pos\<close>; \<open>VScopeObject\<close> an \<open>*ast.Object\<close>; \<open>VTypeAndValue\<close> a
  \<open>types.TypeAndValue\<close>, of which the matcher reads only \<open>Value\<close> (\<open>None\<close> when nil,
  else \<open>Value.String()\<close>); \<open>VReflect\<close> the \<open>reflect.Value\<close> that \<open>matchAST\<close> returns for nil
  pointers; \<open>VStructPtr isnil\<close> a pointer to a struct that is neither a \<open>go/ast\<close> node nor
  an \<open>ast.Object\<close>, such as the \<open>*ast.Scope\<close> of \<open>ast.File.Scope\<close>, with whether it is nil;
  \<open>VOther isnil\<close> any other value: a chan, func or map, with whether it is nil, or a value
  of a kind that cannot be nil (a struct, an array, a number of another type).
\<close>

datatype val =
    VNil
  | VNode string "(string \<times> val) list"
  | VNilNode string
  | VSlice stype "val list option"
  | VString string
  | VToken string
  | VInt int
  | VBool bool
  | VPos int
  | VScopeObject
  | VTypeAndValue "string option"
  | VObject tobj
  | VReflect val
  | VStructPtr bool
  | VOther bool

text \<open>
  \<open>types.Info\<close> as far as the matcher consults it: \<open>ObjectOf\<close>, the map \<open>Types\<close>, and the
  lookup in \<open>types.Universe\<close>.
\<close>

record types_info =
  ObjectOf :: "val \<Rightarrow> tobj option"
  Types :: "val \<Rightarrow> string option option"
  UniverseLookup :: "string \<Rightarrow> tobj option"

text \<open>The size of a value, for the termination of the matcher: at least 1.\<close>

fun vsize :: "val \<Rightarrow> nat" where
  "vsize (VNode k fs) = 2 + sum_list (map (\<lambda>f. vsize (snd f)) fs)"
| "vsize (VNilNode k) = 2"
| "vsize (VSlice t None) = 2"
| "vsize (VSlice t (Some xs)) = 2 + sum_list (map vsize xs)"
| "vsize _ = 1"

definition elems :: "val \<Rightarrow> val list" where
  "elems v = (case v of VSlice t (Some xs) \<Rightarrow> xs | _ \<Rightarrow> [])"

definition get_field :: "(string \<times> val) list \<Rightarrow> string \<Rightarrow> error + val" where
  "get_field fs n = (case map_of fs n of Some v \<Rightarrow> Inr v | None \<Rightarrow> Inl (FieldNotFound n))"

definition is_ast_node :: "val \<Rightarrow> bool" where
  "is_ast_node v = (case v of VNode k fs \<Rightarrow> True | VNilNode k \<Rightarrow> True | _ \<Rightarrow> False)"

definition type_name :: "val \<Rightarrow> string" where
  "type_name v = (case v of VNode k fs \<Rightarrow> k | VNilNode k \<Rightarrow> k | _ \<Rightarrow> [])"

definition expr_types :: "string list" where
  "expr_types = [''BadExpr'', ''Ident'', ''Ellipsis'', ''BasicLit'', ''FuncLit'',
     ''CompositeLit'', ''ParenExpr'', ''SelectorExpr'', ''IndexExpr'', ''IndexListExpr'',
     ''SliceExpr'', ''TypeAssertExpr'', ''CallExpr'', ''StarExpr'', ''UnaryExpr'',
     ''BinaryExpr'', ''KeyValueExpr'', ''ArrayType'', ''StructType'', ''FuncType'',
     ''InterfaceType'', ''MapType'', ''ChanType'']"

definition stmt_types :: "string list" where
  "stmt_types = [''BadStmt'', ''DeclStmt'', ''EmptyStmt'', ''LabeledStmt'', ''ExprStmt'',
     ''SendStmt'', ''IncDecStmt'', ''AssignStmt'', ''GoStmt'', ''DeferStmt'', ''ReturnStmt'',
     ''BranchStmt'', ''BlockStmt'', ''IfStmt'', ''CaseClause'', ''SwitchStmt'',
     ''TypeSwitchStmt'', ''CommClause'', ''SelectStmt'', ''ForStmt'', ''RangeStmt'']"

text \<open>The type assertions \<open>v.(ast.Expr)\<close>, \<open>v.(ast.Stmt)\<close> and \<open>v.(*ast.Field)\<close>.\<close>

definition implements :: "stype \<Rightarrow> val \<Rightarrow> bool" where
  "implements t v = (is_ast_node v \<and>
     (case t of ExprSlice \<Rightarrow> type_name v \<in> set expr_types
      | StmtSlice \<Rightarrow> type_name v \<in> set stmt_types
      | FieldSlice \<Rightarrow> type_name v = ''Field''
      | OtherSlice \<Rightarrow> False))"

definition is_slice_of :: "stype \<Rightarrow> val \<Rightarrow> bool" where
  "is_slice_of t v = (case v of VSlice t' xs \<Rightarrow> t' = t | _ \<Rightarrow> False)"

text \<open>
  The first type switch of \<open>match\<close>, on a host value \<open>l\<close>: \<open>None\<close> when no case applies,
  else the value \<open>match\<close> continues with in place of \<open>l\<close>, or the panic of a nil pointer.
\<close>

definition unwrap_l :: "val \<Rightarrow> (error + val) option" where
  "unwrap_l l = (case l of
      VNode k fs \<Rightarrow>
        if k = ''ParenExpr'' \<or> k = ''ExprStmt'' then Some (get_field fs ''X'')
        else if k = ''DeclStmt'' then Some (get_field fs ''Decl'')
        else if k = ''LabeledStmt'' then Some (get_field fs ''Stmt'')
        else if k = ''BlockStmt'' \<or> k = ''FieldList'' then Some (get_field fs ''List'')
        else None
    | VNilNode k \<Rightarrow>
        if k = ''ParenExpr'' \<or> k = ''ExprStmt'' \<or> k = ''DeclStmt'' \<or> k = ''LabeledStmt''
           \<or> k = ''BlockStmt'' then Some (Inl NilDereference)
        else if k = ''FieldList'' then Some (Inr VNil)
        else None
    | _ \<Rightarrow> None)"

text \<open>The second type switch of \<open>match\<close>, on the right value.\<close>

definition unwrap_r :: "val \<Rightarrow> (error + val) option" where
  "unwrap_r r = (case r of
      VNode k fs \<Rightarrow>
        if k = ''ParenExpr'' \<or> k = ''ExprStmt'' then Some (get_field fs ''X'')
        else if k = ''DeclStmt'' then Some (get_field fs ''Decl'')
        else if k = ''LabeledStmt'' then Some (get_field fs ''Stmt'')
        else if k = ''BlockStmt'' \<or> k = ''FieldList'' then Some (get_field fs ''List'')
        else None
    | VNilNode k \<Rightarrow>
        if k = ''ParenExpr'' \<or> k = ''ExprStmt'' \<or> k = ''DeclStmt'' \<or> k = ''LabeledStmt''
        then Some (Inl NilDereference)
        else if k = ''BlockStmt'' \<or> k = ''FieldList'' \<or> k = ''BasicLit'' then Some (Inr VNil)
        else None
    | _ \<Rightarrow> None)"

text \<open>
  One of the three slice blocks of \<open>match\<close>, for the slice type \<open>t\<close>: \<open>None\<close> when neither
  side is such a slice; \<open>Some None\<close> when the other side is not a single element of the
  kind (the block returns false); else the two sequences to compare.
\<close>

definition slice_args :: "stype \<Rightarrow> val \<Rightarrow> val \<Rightarrow> (val list \<times> val list) option option" where
  "slice_args t l r =
     (let ok1 = is_slice_of t l; ok2 = is_slice_of t r in
      if ok1 \<and> ok2 then Some (Some (elems l, elems r))
      else if ok1 then (if implements t r then Some (Some (elems l, [r])) else Some None)
      else if ok2 then (if implements t l then Some (Some ([l], elems r)) else Some None)
      else None)"

text \<open>Fields that \<open>matchAST\<close> skips: \<open>token.Pos\<close>, \<open>*ast.Object\<close>, \<open>*ast.CommentGroup\<close>.\<close>

definition skipped_field :: "val \<Rightarrow> bool" where
  "skipped_field a = (case a of VPos p \<Rightarrow> True | VScopeObject \<Rightarrow> True
     | VNode k fs \<Rightarrow> k = ''CommentGroup'' | VNilNode k \<Rightarrow> k = ''CommentGroup'' | _ \<Rightarrow> False)"

text \<open>The kind of a struct field as \<open>matchAST\<close> switches on it (\<open>af.Kind()\<close>).\<close>

datatype fkind = KSlice | KBasic | KPointer | KUnhandled

definition field_kind :: "val \<Rightarrow> fkind" where
  "field_kind a = (case a of
      VSlice t xs \<Rightarrow> KSlice
    | VString s \<Rightarrow> KBasic | VInt i \<Rightarrow> KBasic | VToken t \<Rightarrow> KBasic | VBool b \<Rightarrow> KBasic
    | VNil \<Rightarrow> KPointer | VNode k fs \<Rightarrow> KPointer | VNilNode k \<Rightarrow> KPointer
    | VStructPtr isnil \<Rightarrow> KPointer
    | _ \<Rightarrow> KUnhandled)"

definition node_fields :: "val \<Rightarrow> (string \<times> val) list option" where
  "node_fields v = (case v of VNode k fs \<Rightarrow> Some fs | _ \<Rightarrow> None)"

definition as_object :: "val \<Rightarrow> tobj option" where
  "as_object v = (case v of VObject obj \<Rightarrow> Some obj | _ \<Rightarrow> None)"

definition object_of :: "types_info option \<Rightarrow> val \<Rightarrow> error + tobj option" where
  "object_of ti v = (case ti of None \<Rightarrow> Inl NilDereference | Some i \<Rightarrow> Inr (ObjectOf i v))"

lemma vsize_pos: "0 < vsize v"
  by (cases v rule: vsize.cases) simp_all

lemma vsize_map_of:
  "map_of fs n = Some v \<Longrightarrow> vsize v \<le> sum_list (map (\<lambda>f. vsize (snd f)) fs)"
  by (induction fs) (auto split: if_splits)

lemma vsize_get_field:
  "get_field fs n = Inr v \<Longrightarrow> vsize v < 2 + sum_list (map (\<lambda>f. vsize (snd f)) fs)"
  using vsize_map_of [of fs n v]
  by (auto simp: get_field_def split: option.splits)

lemma vsize_unwrap_l: "unwrap_l l = Some (Inr l') \<Longrightarrow> vsize l' < vsize l"
proof (cases l)
  case (VNode k fs)
  assume "unwrap_l l = Some (Inr l')"
  then obtain n where "get_field fs n = Inr l'"
    unfolding unwrap_l_def VNode by (simp split: if_splits)
  from vsize_get_field [OF this] show ?thesis by (simp add: VNode)
next
  case (VNilNode k)
  assume "unwrap_l l = Some (Inr l')"
  then have "l' = VNil" unfolding unwrap_l_def VNilNode by (simp split: if_splits)
  then show ?thesis by (simp add: VNilNode)
qed (simp_all add: unwrap_l_def)

lemma vsize_unwrap_r: "unwrap_r r = Some (Inr r') \<Longrightarrow> vsize r' < vsize r"
proof (cases r)
  case (VNode k fs)
  assume "unwrap_r r = Some (Inr r')"
  then obtain n where "get_field fs n = Inr r'"
    unfolding unwrap_r_def VNode by (simp split: if_splits)
  from vsize_get_field [OF this] show ?thesis by (simp add: VNode)
next
  case (VNilNode k)
  assume "unwrap_r r = Some (Inr r')"
  then have "r' = VNil" unfolding unwrap_r_def VNilNode by (simp split: if_splits)
  then show ?thesis by (simp add: VNilNode)
qed (simp_all add: unwrap_r_def)

lemma vsize_elems: "is_slice_of t v \<Longrightarrow> Suc (sum_list (map vsize (elems v))) < vsize v"
  by (cases v) (simp_all add: is_slice_of_def elems_def split: option.splits)

lemma vsize_elems_le: "sum_list (map vsize (elems v)) \<le> vsize v"
  by (cases v) (simp_all add: elems_def split: option.splits)

lemma vsize_elems_kind:
  "field_kind v = KSlice \<Longrightarrow> Suc (sum_list (map vsize (elems v))) < vsize v"
  by (cases v) (simp_all add: field_kind_def elems_def split: option.splits)

lemma vsize_node_fields:
  "node_fields v = Some fs \<Longrightarrow> Suc (sum_list (map (\<lambda>f. vsize (snd f)) fs)) < vsize v"
  by (cases v) (simp_all add: node_fields_def)

lemma vsize_slice_args:
  assumes "slice_args t l r = Some (Some a)"
  shows "Suc (sum_list (map vsize (fst a)) + sum_list (map vsize (snd a))) < vsize l + vsize r"
proof -
  consider (both) "is_slice_of t l" "is_slice_of t r" "a = (elems l, elems r)"
    | (left) "is_slice_of t l" "a = (elems l, [r])"
    | (right) "is_slice_of t r" "a = ([l], elems r)"
    using assms unfolding slice_args_def Let_def by (simp split: if_splits)
  then show ?thesis
  proof cases
    case both
    then show ?thesis using vsize_elems [of t l] vsize_elems [of t r] by simp
  next
    case left
    then show ?thesis using vsize_elems [of t l] by simp
  next
    case right
    then show ?thesis using vsize_elems [of t r] by simp
  qed
qed

subsection \<open>\<open>match\<close> with a host value on the left, and \<open>matchAST\<close>\<close>

text \<open>
  \<open>match(m, l, r)\<close> where \<open>l\<close> is a host value (a bound value that a \<open>Binding\<close> recalls, or
  a part of one). No pattern is involved, so the bindings do not change: the model takes
  \<open>m.TypesInfo\<close> and returns the two results of \<open>match\<close>.
\<close>

definition match_v_measure ::
  "((types_info option \<times> val \<times> val) + (types_info option \<times> val list \<times> val list))
     + ((types_info option \<times> (string \<times> val) list \<times> (string \<times> val) list)
     + (types_info option \<times> val list \<times> val list)) \<Rightarrow> nat" where
  "match_v_measure x = (case x of
      Inl (Inl (ti, l, r)) \<Rightarrow> vsize l + vsize r
    | Inl (Inr (ti, ls, rs)) \<Rightarrow> Suc (sum_list (map vsize ls) + sum_list (map vsize rs))
    | Inr (Inl (ti, fs, gs)) \<Rightarrow>
        Suc (sum_list (map (\<lambda>f. vsize (snd f)) fs) + sum_list (map (\<lambda>f. vsize (snd f)) gs))
    | Inr (Inr (ti, xs, ys)) \<Rightarrow> Suc (sum_list (map vsize xs) + sum_list (map vsize ys)))"

function match_v :: "types_info option \<Rightarrow> val \<Rightarrow> val \<Rightarrow> error + (val \<times> bool)"
  and match_vs :: "types_info option \<Rightarrow> val list \<Rightarrow> val list \<Rightarrow> error + bool"
  and matchAST_fields :: "types_info option \<Rightarrow> (string \<times> val) list \<Rightarrow> (string \<times> val) list \<Rightarrow> error + bool"
  and matchAST_elems :: "types_info option \<Rightarrow> val list \<Rightarrow> val list \<Rightarrow> error + bool"
where
  "match_v ti l r =
    (case unwrap_l l of
       Some (Inl e) \<Rightarrow> Inl e
     | Some (Inr l') \<Rightarrow> match_v ti l' r
     | None \<Rightarrow>
    (case unwrap_r r of
       Some (Inl e) \<Rightarrow> Inl e
     | Some (Inr r') \<Rightarrow> match_v ti l r'
     | None \<Rightarrow>
       if l = VNil \<or> r = VNil then Inr (VNil, l = r)
       else if is_ast_node l \<and> is_ast_node r then
         \<comment> \<open>\<open>matchAST\<close>\<close>
         (if type_name l \<noteq> type_name r then Inr (VNil, False)
          else (case node_fields l of
             None \<Rightarrow> Inr (VReflect r, node_fields r = None)
           | Some fs \<Rightarrow>
               (case node_fields r of
                  None \<Rightarrow> Inr (VReflect r, False)
                | Some gs \<Rightarrow>
                    (case matchAST_fields ti fs gs of
                       Inl e \<Rightarrow> Inl e
                     | Inr ok \<Rightarrow> Inr (if ok then (r, True) else (VNil, False))))))
       else (case as_object l of
          Some obj \<Rightarrow>
            (case r of
               VNode k gs \<Rightarrow>
                 if k = ''Ident'' then
                   (case object_of ti r of Inl e \<Rightarrow> Inl e
                    | Inr o' \<Rightarrow> Inr (VObject obj, Some obj = o'))
                 else if k = ''SelectorExpr'' then
                   (case get_field gs ''Sel'' of Inl e \<Rightarrow> Inl e
                    | Inr sel \<Rightarrow>
                       (case object_of ti sel of Inl e \<Rightarrow> Inl e
                        | Inr o' \<Rightarrow> Inr (VObject obj, Some obj = o')))
                 else Inr (VObject obj, False)
             | VNilNode k \<Rightarrow>
                 if k = ''Ident'' then
                   (case object_of ti r of Inl e \<Rightarrow> Inl e
                    | Inr o' \<Rightarrow> Inr (VObject obj, Some obj = o'))
                 else if k = ''SelectorExpr'' then Inl NilDereference
                 else Inr (VObject obj, False)
             | _ \<Rightarrow> Inr (VObject obj, False))
        | None \<Rightarrow>
          (case slice_args ExprSlice l r of
             Some None \<Rightarrow> Inr (VNil, False)
           | Some (Some a) \<Rightarrow>
               if length (fst a) \<noteq> length (snd a) then Inr (VNil, False)
               else (case match_vs ti (fst a) (snd a) of Inl e \<Rightarrow> Inl e
                     | Inr ok \<Rightarrow> Inr (if ok then (r, True) else (VNil, False)))
           | None \<Rightarrow>
          (case slice_args StmtSlice l r of
             Some None \<Rightarrow> Inr (VNil, False)
           | Some (Some a) \<Rightarrow>
               if length (fst a) \<noteq> length (snd a) then Inr (VNil, False)
               else (case match_vs ti (fst a) (snd a) of Inl e \<Rightarrow> Inl e
                     | Inr ok \<Rightarrow> Inr (if ok then (r, True) else (VNil, False)))
           | None \<Rightarrow>
          (case slice_args FieldSlice l r of
             Some None \<Rightarrow> Inr (VNil, False)
           | Some (Some a) \<Rightarrow>
               if length (fst a) \<noteq> length (snd a) then Inr (VNil, False)
               else (case match_vs ti (fst a) (snd a) of Inl e \<Rightarrow> Inl e
                     | Inr ok \<Rightarrow> Inr (if ok then (r, True) else (VNil, False)))
           | None \<Rightarrow> Inr (VNil, False)))))))"
| "match_vs ti ls rs =
    (case ls of
       [] \<Rightarrow> Inr True
     | ll # ls' \<Rightarrow>
        (case rs of
           [] \<Rightarrow> Inl IndexOutOfRange
         | rr # rs' \<Rightarrow>
            (case match_v ti ll rr of
               Inl e \<Rightarrow> Inl e
             | Inr res \<Rightarrow> if snd res then match_vs ti ls' rs' else Inr False)))"
| "matchAST_fields ti fs gs =
    (case fs of
       [] \<Rightarrow> Inr True
     | af # fs' \<Rightarrow>
        (case gs of
           [] \<Rightarrow> Inl IndexOutOfRange
         | bf # gs' \<Rightarrow>
            if skipped_field (snd af) then matchAST_fields ti fs' gs'
            else (case field_kind (snd af) of
               KSlice \<Rightarrow>
                 if length (elems (snd af)) \<noteq> length (elems (snd bf)) then Inr False
                 else (case matchAST_elems ti (elems (snd af)) (elems (snd bf)) of
                         Inl e \<Rightarrow> Inl e
                       | Inr ok \<Rightarrow> if ok then matchAST_fields ti fs' gs' else Inr False)
             | KBasic \<Rightarrow> if snd af \<noteq> snd bf then Inr False else matchAST_fields ti fs' gs'
             | KPointer \<Rightarrow>
                 (case match_v ti (snd af) (snd bf) of Inl e \<Rightarrow> Inl e
                  | Inr res \<Rightarrow> if snd res then matchAST_fields ti fs' gs' else Inr False)
             | KUnhandled \<Rightarrow> Inl UnhandledKind)))"
| "matchAST_elems ti xs ys =
    (case xs of
       [] \<Rightarrow> Inr True
     | x # xs' \<Rightarrow>
        (case ys of
           [] \<Rightarrow> Inl IndexOutOfRange
         | y # ys' \<Rightarrow>
            if \<not> is_ast_node x \<or> \<not> is_ast_node y then Inl TypeAssertion
            else (case match_v ti x y of
               Inl e \<Rightarrow> Inl e
             | Inr res \<Rightarrow> if snd res then matchAST_elems ti xs' ys' else Inr False)))"
  by pat_completeness auto

termination
  apply (relation "measure match_v_measure")
  apply (simp_all add: match_v_measure_def vsize_pos vsize_unwrap_l vsize_unwrap_r)
  subgoal for l r x2 x2a
    using vsize_node_fields[of l x2] vsize_node_fields[of r x2a] by simp
  subgoal for l r x2 x2a
    using vsize_slice_args[of FieldSlice l r x2a] by (simp add: case_prod_beta)
  subgoal for l r x2 x2a
    using vsize_slice_args[of StmtSlice l r x2a] by (simp add: case_prod_beta)
  subgoal for l r x2 x2a
    using vsize_slice_args[of ExprSlice l r x2a] by (simp add: case_prod_beta)
  subgoal for fs gs af fs' bf gs'
    using vsize_elems_kind[of "snd af"] vsize_elems_le[of "snd bf"] by simp
  done


subsection \<open>Patterns and the matcher state\<close>

text \<open>
  The pattern nodes. A field of type \<open>Node\<close> is a \<open>node option\<close>: \<open>None\<close> is the nil
  interface. \<open>NilP\<close> and \<open>NotP\<close> are the variants \<open>Nil\<close> and \<open>Not\<close>; \<open>Node k fs\<close> is any of
  the struct patterns that mirror a \<open>go/ast\<close> type (\<open>Ident\<close>, \<open>CallExpr\<close>, ...), with the
  name of its type and its fields in declaration order: these are the nodes that do not
  implement \<open>matcher\<close> and are matched by \<open>matchNodeAST\<close>. \<open>Binding\<close> carries its
  unexported \<open>idx\<close>.
\<close>

datatype node =
    Any
  | NilP
  | String string
  | Token string
  | List "node option" "node option"
  | Binding string nat "node option"
  | Node string "(string \<times> node option) list"
  | Or "node option list"
  | NotP "node option"
  | Builtin "node option"
  | Object "node option"
  | Symbol "node option"
  | IntegerLiteral "node option"
  | TrulyConstantExpression "node option"

record Pattern =
  Root :: "node option"
  Bindings :: "string list"

record Matcher =
  TypesInfo :: "types_info option"
  State :: "string \<Rightarrow> val option"
  bindingsMapping :: "string list"
  setBindings :: "64 word list"

type_synonym mres = "error + ((val \<times> bool) \<times> Matcher)"

definition tokensByString :: "(string \<times> string) list" where
  "tokensByString = [
     (''INT'', ''INT''), (''FLOAT'', ''FLOAT''), (''IMAG'', ''IMAG''), (''CHAR'', ''CHAR''),
     (''STRING'', ''STRING''), (''+'', ''ADD''), (''-'', ''SUB''), (''*'', ''MUL''),
     (''/'', ''QUO''), (''%'', ''REM''), (''&'', ''AND''), (''|'', ''OR''), (''^'', ''XOR''),
     (''<<'', ''SHL''), (''>>'', ''SHR''), (''&^'', ''AND_NOT''), (''+='', ''ADD_ASSIGN''),
     (''-='', ''SUB_ASSIGN''), (''*='', ''MUL_ASSIGN''), (''/='', ''QUO_ASSIGN''),
     (''%='', ''REM_ASSIGN''), (''&='', ''AND_ASSIGN''), (''|='', ''OR_ASSIGN''),
     (''^='', ''XOR_ASSIGN''), (''<<='', ''SHL_ASSIGN''), (''>>='', ''SHR_ASSIGN''),
     (''&^='', ''AND_NOT_ASSIGN''), (''&&'', ''LAND''), (''||'', ''LOR''), (''<-'', ''ARROW''),
     (''++'', ''INC''), (''--'', ''DEC''), (''=='', ''EQL''), (''<'', ''LSS''), (''>'', ''GTR''),
     (''='', ''ASSIGN''), (''!'', ''NOT''), (''!='', ''NEQ''), (''<='', ''LEQ''),
     (''>='', ''GEQ''), ('':='', ''DEFINE''), (''...'', ''ELLIPSIS''), (''IMPORT'', ''IMPORT''),
     (''VAR'', ''VAR''), (''TYPE'', ''TYPE''), (''CONST'', ''CONST''), (''BREAK'', ''BREAK''),
     (''CONTINUE'', ''CONTINUE''), (''GOTO'', ''GOTO''), (''FALLTHROUGH'', ''FALLTHROUGH'')]"

definition maybeToken :: "string \<Rightarrow> string option" where
  "maybeToken s = map_of tokensByString s"

text \<open>\<open>isNil\<close> on a pattern field: the nil interface or the pattern \<open>Nil\<close>.\<close>

definition isNil :: "node option \<Rightarrow> bool" where
  "isNil v = (v = None \<or> v = Some NilP)"

definition set_binding :: "Matcher \<Rightarrow> string \<Rightarrow> nat \<Rightarrow> val \<Rightarrow> error + Matcher" where
  "set_binding m name idx v =
     (let sb = setBindings m in
      if sb = [] then Inl IndexOutOfRange
      else Inr (m\<lparr>State := (State m)(name := Some v),
                   setBindings := sb[length sb - 1 := (sb ! (length sb - 1)) OR push_bit idx 1]\<rparr>))"

definition push :: "Matcher \<Rightarrow> Matcher" where
  "push m = m\<lparr>setBindings := setBindings m @ [0]\<rparr>"

text \<open>The loop of \<open>pop\<close>, from index \<open>i\<close> on, over the names of \<open>bindingsMapping\<close>.\<close>

fun pop_loop :: "64 word \<Rightarrow> nat \<Rightarrow> string list \<Rightarrow> (string \<Rightarrow> val option) \<Rightarrow> (string \<Rightarrow> val option)" where
  "pop_loop bits i [] st = st"
| "pop_loop bits i (key # keys) st =
     pop_loop bits (Suc i) keys (if bits AND push_bit i 1 \<noteq> 0 then st(key := None) else st)"

definition pop :: "Matcher \<Rightarrow> error + Matcher" where
  "pop m =
     (let sb = setBindings m in
      if sb = [] then Inl IndexOutOfRange
      else let bits = sb ! (length sb - 1);
               st = (if bits \<noteq> 0 then pop_loop bits 0 (bindingsMapping m) (State m) else State m)
           in Inr (m\<lparr>State := st, setBindings := take (length sb - 1) sb\<rparr>))"

definition merge :: "Matcher \<Rightarrow> error + Matcher" where
  "merge m =
     (let sb = setBindings m in
      if sb = [] then Inl IndexOutOfRange
      else Inr (m\<lparr>setBindings := take (length sb - 1) sb\<rparr>))"

definition Any_Match :: "val \<Rightarrow> val \<times> bool" where
  "Any_Match node = (node, True)"

definition Token_Match :: "string \<Rightarrow> val \<Rightarrow> val \<times> bool" where
  "Token_Match tok node = (case node of VToken t \<Rightarrow> (node, tok = t) | _ \<Rightarrow> (VNil, False))"

definition Nil_Match :: "val \<Rightarrow> val \<times> bool" where
  "Nil_Match node = (case node of
      VNil \<Rightarrow> (VNil, True)
    | VNilNode k \<Rightarrow> (VNil, True)
    | VSlice t xs \<Rightarrow> (VNil, xs = None)
    | VStructPtr isnil \<Rightarrow> (VNil, isnil)
    | VOther isnil \<Rightarrow> (VNil, isnil)
    | _ \<Rightarrow> (VNil, False))"

definition is_slice :: "val \<Rightarrow> bool" where
  "is_slice v = (case v of VSlice t xs \<Rightarrow> True | _ \<Rightarrow> False)"

definition slice_type :: "val \<Rightarrow> stype" where
  "slice_type v = (case v of VSlice t xs \<Rightarrow> t | _ \<Rightarrow> OtherSlice)"

definition is_ident :: "val \<Rightarrow> bool" where
  "is_ident v = (is_ast_node v \<and> type_name v = ''Ident'')"

definition ident_name :: "val \<Rightarrow> error + string" where
  "ident_name v = (case v of
      VNode k fs \<Rightarrow>
        (case get_field fs ''Name'' of
           Inl e \<Rightarrow> Inl e
         | Inr n \<Rightarrow> (case n of VString s \<Rightarrow> Inr s | _ \<Rightarrow> Inl TypeAssertion))
    | _ \<Rightarrow> Inl NilDereference)"

definition object_val :: "tobj option \<Rightarrow> val" where
  "object_val obj = (case obj of None \<Rightarrow> VNil | Some ob \<Rightarrow> VObject ob)"

definition universe_lookup :: "types_info option \<Rightarrow> string \<Rightarrow> tobj option" where
  "universe_lookup ti n = (case ti of None \<Rightarrow> None | Some i \<Rightarrow> UniverseLookup i n)"

definition types_of :: "types_info option \<Rightarrow> val \<Rightarrow> error + string option option" where
  "types_of ti v = (case ti of None \<Rightarrow> Inl NilDereference | Some i \<Rightarrow> Inr (Types i v))"

text \<open>\<open>astutil.Unparen\<close>: strips the enclosing parentheses of an expression.\<close>

function unparen :: "val \<Rightarrow> error + val" where
  "unparen e =
     (if is_ast_node e \<and> type_name e = ''ParenExpr'' then
        (case node_fields e of
           None \<Rightarrow> Inl NilDereference
         | Some fs \<Rightarrow> (case get_field fs ''X'' of Inl er \<Rightarrow> Inl er | Inr x \<Rightarrow> unparen x))
      else Inr e)"
  by pat_completeness auto
termination
  apply (relation "measure vsize")
   apply simp
  subgoal for e fs x
    using vsize_node_fields [of e fs] vsize_get_field [of fs "''X''" x] by simp
  done

text \<open>
  The middle of \<open>Symbol.Match\<close>: from the matched expression to the object it denotes
  (the callee of an index expression, without parentheses, resolved by \<open>ObjectOf\<close>).
\<close>

definition symbol_object :: "types_info option \<Rightarrow> val \<Rightarrow> error + tobj option" where
  "symbol_object ti r =
     (if \<not> implements ExprSlice r then Inl TypeAssertion
      else
        (case (if type_name r = ''IndexExpr'' \<or> type_name r = ''IndexListExpr'' then
                 (case node_fields r of None \<Rightarrow> Inl NilDereference
                  | Some fs \<Rightarrow> get_field fs ''X'')
               else Inr r) of
           Inl e \<Rightarrow> Inl e
         | Inr f \<Rightarrow>
            (case unparen f of
               Inl e \<Rightarrow> Inl e
             | Inr f' \<Rightarrow>
                if is_ident f' then object_of ti f'
                else if is_ast_node f' \<and> type_name f' = ''SelectorExpr'' then
                  (case node_fields f' of
                     None \<Rightarrow> Inl NilDereference
                   | Some fs \<Rightarrow>
                      (case get_field fs ''Sel'' of Inl e \<Rightarrow> Inl e | Inr sel \<Rightarrow> object_of ti sel))
                else Inl Unreachable)))"

definition as_typename :: "tobj \<Rightarrow> typename option" where
  "as_typename ob = (case ob of OTypeName tn \<Rightarrow> Some tn | _ \<Rightarrow> None)"

text \<open>
  The name \<open>Symbol.Match\<close> compares for an object that is a \<open>Func\<close>, a \<open>Builtin\<close>, a
  \<open>Const\<close> or a \<open>Var\<close>; \<open>None\<close> where the method returns false at once.
\<close>

definition symbol_name :: "tobj \<Rightarrow> string option" where
  "symbol_name ob = (case ob of
      OFunc i full \<Rightarrow> Some full
    | OBuiltin i n \<Rightarrow> Some n
    | OConst i pkg par n \<Rightarrow>
        (case pkg of None \<Rightarrow> None | Some path \<Rightarrow> if \<not> par then None else Some (path @ ''.'' @ n))
    | OVar i pkg par n \<Rightarrow>
        (case pkg of None \<Rightarrow> None | Some path \<Rightarrow> if \<not> par then None else Some (path @ ''.'' @ n))
    | _ \<Rightarrow> None)"

text \<open>The visit of \<open>ast.Inspect\<close> in \<open>TrulyConstantExpression.Match\<close>: is there an identifier?\<close>

fun contains_ident :: "val \<Rightarrow> bool" where
  "contains_ident (VNode k fs) = (k = ''Ident'' \<or> list_ex (\<lambda>f. contains_ident (snd f)) fs)"
| "contains_ident (VNilNode k) = (k = ''Ident'')"
| "contains_ident (VSlice t (Some xs)) = list_ex contains_ident xs"
| "contains_ident _ = False"

text \<open>The pattern \<open>integerLiteralQ\<close> and the pattern that \<open>Symbol.Match\<close> builds.\<close>

definition integerLiteralQ :: node where
  "integerLiteralQ = Or [
     Some (Node ''BasicLit'' [(''Kind'', Some (String ''INT'')), (''Value'', Some Any)]),
     Some (Node ''UnaryExpr'' [(''Op'', Some (Or [Some (String ''+''), Some (String ''-'')])),
                               (''X'', Some (IntegerLiteral (Some Any)))])]"

definition symbol_base :: "node option list" where
  "symbol_base = [Some (Node ''Ident'' [(''Name'', Some Any)]),
                  Some (Node ''SelectorExpr'' [(''X'', Some Any), (''Sel'', Some Any)])]"

definition symbol_pattern :: node where
  "symbol_pattern = Or (symbol_base @
     [Some (Node ''IndexExpr'' [(''X'', Some (Or symbol_base)), (''Index'', Some Any)]),
      Some (Node ''IndexListExpr'' [(''X'', Some (Or symbol_base)), (''Indices'', Some Any)])])"


subsection \<open>The measure for the termination of the matcher\<close>

text \<open>
  Termination. Every call of the matcher either moves to a strictly smaller right value,
  or keeps a right value that is no larger and moves to a lighter pattern. A struct
  pattern has weight 1: \<open>matchNodeAST\<close> moves to the fields of the right value.
\<close>

fun wt :: "node \<Rightarrow> nat" where
  "wt Any = 1"
| "wt NilP = 1"
| "wt (String s) = 2"
| "wt (Token t) = 1"
| "wt (List h t) = 1 + (case h of None \<Rightarrow> 0 | Some p \<Rightarrow> wt p) + (case t of None \<Rightarrow> 0 | Some p \<Rightarrow> wt p)"
| "wt (Binding name idx sub) = 2 + (case sub of None \<Rightarrow> 0 | Some p \<Rightarrow> wt p)"
| "wt (Node k fs) = 1"
| "wt (Or ns) = 1 + sum_list (map (\<lambda>n. 1 + (case n of None \<Rightarrow> 0 | Some p \<Rightarrow> wt p)) ns)"
| "wt (NotP n) = 1 + (case n of None \<Rightarrow> 0 | Some p \<Rightarrow> wt p)"
| "wt (Builtin n) = 2 + (case n of None \<Rightarrow> 0 | Some p \<Rightarrow> wt p)"
| "wt (Object n) = 2 + (case n of None \<Rightarrow> 0 | Some p \<Rightarrow> wt p)"
| "wt (Symbol n) = 11 + (case n of None \<Rightarrow> 0 | Some p \<Rightarrow> wt p)"
| "wt (IntegerLiteral v) = 6 + (case v of None \<Rightarrow> 0 | Some p \<Rightarrow> wt p)"
| "wt (TrulyConstantExpression v) = 1 + (case v of None \<Rightarrow> 0 | Some p \<Rightarrow> wt p)"

definition wto :: "node option \<Rightarrow> nat" where
  "wto l = (case l of None \<Rightarrow> 0 | Some p \<Rightarrow> wt p)"

fun tn_depth :: "typename \<Rightarrow> nat" where
  "tn_depth (TypeName i p s a) =
     (case a of Some u \<Rightarrow> (case u of HasObj t \<Rightarrow> Suc (tn_depth t) | _ \<Rightarrow> 0) | None \<Rightarrow> 0)"

definition match_measure ::
  "(((Matcher \<times> node option \<times> val)
      + ((Matcher \<times> string \<times> nat \<times> node option \<times> val)
         + (Matcher \<times> node option \<times> node option \<times> val)))
    + (((Matcher \<times> string \<times> val) + (Matcher \<times> node option \<times> val))
       + ((Matcher \<times> node option \<times> val) + (Matcher \<times> node option \<times> val))))
   + (((Matcher \<times> node option \<times> typename \<times> typename)
       + ((Matcher \<times> node option list \<times> val) + (Matcher \<times> node option \<times> val)))
      + (((Matcher \<times> node option \<times> val) + (Matcher \<times> node option \<times> val))
         + ((Matcher \<times> string \<times> (string \<times> node option) list \<times> val)
            + (Matcher \<times> (string \<times> node option) list \<times> (string \<times> val) list \<times> val))))
   \<Rightarrow> nat \<times> nat \<times> nat" where
  "match_measure =
     case_sum
       (case_sum
          (case_sum (\<lambda>(m, l, r). (vsize r, wto l, 1))
             (case_sum (\<lambda>(m, name, idx, sub, node). (vsize node, 2 + wto sub, 0))
                       (\<lambda>(m, h, t, node). (vsize node, 1 + wto h + wto t, 0))))
          (case_sum
             (case_sum (\<lambda>(m, s, node). (vsize node, 2, 0))
                       (\<lambda>(m, n, node). (vsize node, 2 + wto n, 0)))
             (case_sum (\<lambda>(m, n, node). (vsize node, 2 + wto n, 0))
                       (\<lambda>(m, n, node). (vsize node, 11 + wto n, 0)))))
       (case_sum
          (case_sum (\<lambda>(m, name, orig, obj). (1, 1 + wto name, tn_depth obj))
             (case_sum (\<lambda>(m, ns, node). (vsize node, wt (Or ns), 0))
                       (\<lambda>(m, n, node). (vsize node, 1 + wto n, 0))))
          (case_sum
             (case_sum (\<lambda>(m, v, node). (vsize node, 6 + wto v, 0))
                       (\<lambda>(m, v, node). (vsize node, 1 + wto v, 0)))
             (case_sum (\<lambda>(m, k, fs, b). (vsize b, 1, 0))
                       (\<lambda>(m, fs, gs, b).
                          (2 + sum_list (map (\<lambda>f. vsize (snd f)) gs), 0, length fs)))))"

lemma vsize_ge_1: "Suc 0 < vsize v \<or> Suc 0 = vsize v"
  using vsize_pos [of v] by arith

lemma vsize_hd_elems:
  "is_slice v \<Longrightarrow> elems v \<noteq> [] \<Longrightarrow> vsize (hd (elems v)) < vsize v"
  by (cases v; cases "elems v") (auto simp: is_slice_def elems_def split: option.splits)

lemma vsize_tl_elems:
  "is_slice v \<Longrightarrow> elems v \<noteq> [] \<Longrightarrow> Suc (Suc (sum_list (map vsize (tl (elems v))))) < vsize v"
  using vsize_pos [of "hd (elems v)"]
  by (cases v; cases "elems v") (auto simp: is_slice_def elems_def split: option.splits)

lemma tn_depth_alias_target:
  "alias_target obj = Some (HasObj t) \<Longrightarrow> tn_depth t < tn_depth obj"
  by (cases obj) simp

lemma wt_symbol_pattern: "wt symbol_pattern = 9"
  by (simp add: symbol_pattern_def symbol_base_def)

lemma wt_integerLiteralQ: "wt integerLiteralQ = 5"
  by (simp add: integerLiteralQ_def)

subsection \<open>\<open>match\<close> with a pattern on the left, and the \<open>Match\<close> methods\<close>

text \<open>
  \<open>match m l r\<close> is \<open>match(m, l, r)\<close> where \<open>l\<close> is a pattern node or the nil interface;
  the right side is normalised first, then the pattern's own \<open>Match\<close> method runs (for a
  struct pattern, \<open>matchNodeAST\<close>). The matcher \<open>m\<close> is passed in and returned, since
  \<open>Binding\<close>, \<open>Or\<close> change its bindings and frames.
\<close>

function match :: "Matcher \<Rightarrow> node option \<Rightarrow> val \<Rightarrow> mres"
  and Binding_Match :: "Matcher \<Rightarrow> string \<Rightarrow> nat \<Rightarrow> node option \<Rightarrow> val \<Rightarrow> mres"
  and List_Match :: "Matcher \<Rightarrow> node option \<Rightarrow> node option \<Rightarrow> val \<Rightarrow> mres"
  and String_Match :: "Matcher \<Rightarrow> string \<Rightarrow> val \<Rightarrow> mres"
  and Builtin_Match :: "Matcher \<Rightarrow> node option \<Rightarrow> val \<Rightarrow> mres"
  and Object_Match :: "Matcher \<Rightarrow> node option \<Rightarrow> val \<Rightarrow> mres"
  and Symbol_Match :: "Matcher \<Rightarrow> node option \<Rightarrow> val \<Rightarrow> mres"
  and Symbol_TypeName :: "Matcher \<Rightarrow> node option \<Rightarrow> typename \<Rightarrow> typename \<Rightarrow> mres"
  and Or_Match :: "Matcher \<Rightarrow> node option list \<Rightarrow> val \<Rightarrow> mres"
  and Not_Match :: "Matcher \<Rightarrow> node option \<Rightarrow> val \<Rightarrow> mres"
  and IntegerLiteral_Match :: "Matcher \<Rightarrow> node option \<Rightarrow> val \<Rightarrow> mres"
  and TrulyConstantExpression_Match :: "Matcher \<Rightarrow> node option \<Rightarrow> val \<Rightarrow> mres"
  and matchNodeAST :: "Matcher \<Rightarrow> string \<Rightarrow> (string \<times> node option) list \<Rightarrow> val \<Rightarrow> mres"
  and matchNodeAST_fields ::
    "Matcher \<Rightarrow> (string \<times> node option) list \<Rightarrow> (string \<times> val) list \<Rightarrow> val \<Rightarrow> mres"
where
  "match m l r =
    (case unwrap_r r of
       Some (Inl e) \<Rightarrow> Inl e
     | Some (Inr r') \<Rightarrow> match m l r'
     | None \<Rightarrow>
        (case l of
           None \<Rightarrow> Inr ((VNil, r = VNil), m)
         | Some p \<Rightarrow>
            (case p of
               Any \<Rightarrow> Inr (Any_Match r, m)
             | NilP \<Rightarrow> Inr (Nil_Match r, m)
             | String s \<Rightarrow> String_Match m s r
             | Token t \<Rightarrow> Inr (Token_Match t r, m)
             | List h t \<Rightarrow> List_Match m h t r
             | Binding name idx sub \<Rightarrow> Binding_Match m name idx sub r
             | Node k fs \<Rightarrow> matchNodeAST m k fs r
             | Or ns \<Rightarrow> Or_Match m ns r
             | NotP n \<Rightarrow> Not_Match m n r
             | Builtin n \<Rightarrow> Builtin_Match m n r
             | Object n \<Rightarrow> Object_Match m n r
             | Symbol n \<Rightarrow> Symbol_Match m n r
             | IntegerLiteral v \<Rightarrow> IntegerLiteral_Match m v r
             | TrulyConstantExpression v \<Rightarrow> TrulyConstantExpression_Match m v r)))"
| "Binding_Match m name idx sub node =
    (if isNil sub \<and> State m name \<noteq> None then
       \<comment> \<open>recall the value\<close>
       (case match_v (TypesInfo m) (the (State m name)) node of
          Inl e \<Rightarrow> Inl e
        | Inr res \<Rightarrow> Inr (res, m))
     else if State m name \<noteq> None then Inl (BindingAlreadyCreated name)
     else
       (case match m (if isNil sub then Some Any else sub) node of
          Inl e \<Rightarrow> Inl e
        | Inr res \<Rightarrow>
           if snd (fst res) then
             (case set_binding (snd res) name idx (fst (fst res)) of
                Inl e \<Rightarrow> Inl e
              | Inr m' \<Rightarrow> Inr (fst res, m'))
           else Inr res))"
| "List_Match m h t node =
    (if is_slice node then
       if isNil h then Inr ((node, length (elems node) = 0), m)
       else if length (elems node) = 0 then Inr ((VNil, False), m)
       else
         (case match m h (hd (elems node)) of
            Inl e \<Rightarrow> Inl e
          | Inr res1 \<Rightarrow>
             (case match (snd res1) t (VSlice (slice_type node) (Some (tl (elems node)))) of
                Inl e \<Rightarrow> Inl e
              | Inr res2 \<Rightarrow> Inr ((node, snd (fst res1) \<and> snd (fst res2)), snd res2)))
     else Inr ((VNil, False), m))"
| "String_Match m s node =
    (case node of
       VToken t \<Rightarrow>
         (case maybeToken s of
            Some tok \<Rightarrow> match m (Some (Token tok)) node
          | None \<Rightarrow> Inr ((VNil, False), m))
     | VString x \<Rightarrow> Inr ((node, s = x), m)
     | VTypeAndValue v \<Rightarrow> Inr ((node, v = Some s), m)
     | _ \<Rightarrow> Inr ((VNil, False), m))"
| "Builtin_Match m name node =
    (case match m (Some (Node ''Ident'' [(''Name'', name)])) node of
       Inl e \<Rightarrow> Inl e
     | Inr res \<Rightarrow>
        if \<not> snd (fst res) then Inr ((VNil, False), snd res)
        else if \<not> is_ident (fst (fst res)) then Inl TypeAssertion
        else
          (case object_of (TypesInfo (snd res)) (fst (fst res)) of
             Inl e \<Rightarrow> Inl e
           | Inr obj \<Rightarrow>
              (case ident_name (fst (fst res)) of
                 Inl e \<Rightarrow> Inl e
               | Inr n \<Rightarrow>
                  if obj \<noteq> universe_lookup (TypesInfo (snd res)) n
                  then Inr ((VNil, False), snd res)
                  else Inr ((fst (fst res), True), snd res))))"
| "Object_Match m name node =
    (case match m (Some (Node ''Ident'' [(''Name'', name)])) node of
       Inl e \<Rightarrow> Inl e
     | Inr res \<Rightarrow>
        if \<not> snd (fst res) then Inr ((VNil, False), snd res)
        else if \<not> is_ident (fst (fst res)) then Inl TypeAssertion
        else
          (case object_of (TypesInfo (snd res)) (fst (fst res)) of
             Inl e \<Rightarrow> Inl e
           | Inr obj \<Rightarrow>
              (case ident_name (fst (fst res)) of
                 Inl e \<Rightarrow> Inl e
               | Inr n \<Rightarrow>
                  (case match (snd res) name (VString n) of
                     Inl e \<Rightarrow> Inl e
                   | Inr res2 \<Rightarrow> Inr ((object_val obj, snd (fst res2)), snd res2)))))"
| "Symbol_Match m name node =
    (case match m (Some symbol_pattern) node of
       Inl e \<Rightarrow> Inl e
     | Inr res \<Rightarrow>
        if \<not> snd (fst res) then Inr ((VNil, False), snd res)
        else
          (case symbol_object (TypesInfo (snd res)) (fst (fst res)) of
             Inl e \<Rightarrow> Inl e
           | Inr None \<Rightarrow> Inr ((VNil, False), snd res)
           | Inr (Some obj) \<Rightarrow>
              (case as_typename obj of
                 Some tn \<Rightarrow> Symbol_TypeName (snd res) name tn tn
               | None \<Rightarrow>
                  (case symbol_name obj of
                     None \<Rightarrow> Inr ((VNil, False), snd res)
                   | Some n \<Rightarrow>
                      (case match (snd res) name (VString n) of
                         Inl e \<Rightarrow> Inl e
                       | Inr res2 \<Rightarrow> Inr ((VObject obj, snd (fst res2)), snd res2))))))"
| "Symbol_TypeName m name origObj obj =
    (if \<not> parent_is_pkg_scope obj then Inr ((VNil, False), m)
     else
       (case match m name (VString (type_string obj)) of
          Inl e \<Rightarrow> Inl e
        | Inr res \<Rightarrow>
           if snd (fst res) \<or> alias_target obj = None
           then Inr ((VObject (OTypeName origObj), snd (fst res)), snd res)
           else
             (case the (alias_target obj) of
                HasObj obj' \<Rightarrow> Symbol_TypeName (snd res) name origObj obj'
              | IsBasic n \<Rightarrow> match (snd res) name (VString n)
              | OtherType \<Rightarrow> Inr ((VNil, False), snd res))))"
| "Or_Match m ns node =
    (case ns of
       [] \<Rightarrow> Inr ((VNil, False), m)
     | opt # rest \<Rightarrow>
        (case match (push m) opt node of
           Inl e \<Rightarrow> Inl e
         | Inr res \<Rightarrow>
            if snd (fst res) then
              (case merge (snd res) of
                 Inl e \<Rightarrow> Inl e
               | Inr m' \<Rightarrow> Inr ((fst (fst res), True), m'))
            else
              (case pop (snd res) of
                 Inl e \<Rightarrow> Inl e
               | Inr m' \<Rightarrow> Or_Match m' rest node)))"
| "Not_Match m n node =
    (case match m n node of
       Inl e \<Rightarrow> Inl e
     | Inr res \<Rightarrow>
        if snd (fst res) then Inr ((VNil, False), snd res)
        else Inr ((node, True), snd res))"
| "IntegerLiteral_Match m v node =
    (case match m (Some integerLiteralQ) node of
       Inl e \<Rightarrow> Inl e
     | Inr res \<Rightarrow>
        if \<not> snd (fst res) then Inr ((VNil, False), snd res)
        else if \<not> implements ExprSlice (fst (fst res)) then Inl TypeAssertion
        else
          (case types_of (TypesInfo (snd res)) (fst (fst res)) of
             Inl e \<Rightarrow> Inl e
           | Inr None \<Rightarrow> Inr ((VNil, False), snd res)
           | Inr (Some tv) \<Rightarrow>
              if tv = None then Inr ((VNil, False), snd res)
              else
                (case match (snd res) v (VTypeAndValue tv) of
                   Inl e \<Rightarrow> Inl e
                 | Inr res2 \<Rightarrow> Inr ((fst (fst res), snd (fst res2)), snd res2))))"
| "TrulyConstantExpression_Match m v node =
    (if \<not> implements ExprSlice node then Inr ((VNil, False), m)
     else
       (case types_of (TypesInfo m) node of
          Inl e \<Rightarrow> Inl e
        | Inr None \<Rightarrow> Inr ((VNil, False), m)
        | Inr (Some tv) \<Rightarrow>
           if tv = None then Inr ((VNil, False), m)
           else if contains_ident node then Inr ((VNil, False), m)
           else
             (case match m v (VTypeAndValue tv) of
                Inl e \<Rightarrow> Inl e
              | Inr res \<Rightarrow> Inr ((node, snd (fst res)), snd res))))"
| "matchNodeAST m k fs b =
    (if is_slice b then
       if slice_type b = OtherSlice then Inl UnhandledType
       else if length (elems b) \<noteq> 1 then Inr ((VNil, False), m)
       else match m (Some (Node k fs)) (hd (elems b))
     else
       (case b of
          VNode k' gs \<Rightarrow>
            if k \<noteq> k' then Inr ((VNil, False), m) else matchNodeAST_fields m fs gs b
        | VNilNode k' \<Rightarrow> Inl NilDereference
        | VNil \<Rightarrow> Inr ((VNil, False), m)
        | VString s \<Rightarrow> Inr ((VNil, False), m)
        | VToken t \<Rightarrow> Inr ((VNil, False), m)
        | _ \<Rightarrow> Inl UnhandledType))"
| "matchNodeAST_fields m fs gs b =
    (case fs of
       [] \<Rightarrow> Inr ((b, True), m)
     | f # fs' \<Rightarrow>
        (case get_field gs (fst f) of
           Inl e \<Rightarrow> Inl e
         | Inr bi \<Rightarrow>
            if snd f = None then Inr ((b, bi = VNil), m)
            else
              (case match m (snd f) bi of
                 Inl e \<Rightarrow> Inl e
               | Inr res \<Rightarrow>
                  if snd (fst res) then matchNodeAST_fields (snd res) fs' gs b
                  else Inr ((b, False), snd res))))"
  by pat_completeness auto


termination
  apply (relation "inv_image (less_than <*lex*> less_than <*lex*> less_than) match_measure")
  apply (intro wf_inv_image wf_lex_prod wf_less_than)
  apply (simp_all add: match_measure_def wto_def vsize_pos vsize_unwrap_r
      wt_symbol_pattern wt_integerLiteralQ vsize_ge_1 vsize_hd_elems vsize_tl_elems)
  subgoal for m name obj b x1
    using tn_depth_alias_target [of obj x1] by auto
  subgoal for b
    using vsize_hd_elems [of b] by (cases "elems b") simp_all
  subgoal for fs gs f fs' bi
    using vsize_get_field [of gs "fst f" bi] by simp
  done


text \<open>\<open>(*Matcher).Match\<close> and the function \<open>Match\<close>: the result and the matcher afterwards.\<close>

definition Matcher_Match :: "Matcher \<Rightarrow> Pattern \<Rightarrow> val \<Rightarrow> error + (bool \<times> Matcher)" where
  "Matcher_Match m a b =
     (case match (push (m\<lparr>State := (\<lambda>k. None), bindingsMapping := Bindings a\<rparr>)) (Root a) b of
        Inl e \<Rightarrow> Inl e
      | Inr res \<Rightarrow>
         (case merge (snd res) of
            Inl e \<Rightarrow> Inl e
          | Inr m' \<Rightarrow>
             if length (setBindings m') \<noteq> 0 then Inl (StackNotEmpty (length (setBindings m')))
             else Inr (snd (fst res), m')))"

definition Match :: "Pattern \<Rightarrow> val \<Rightarrow> error + (bool \<times> Matcher)" where
  "Match a b =
     Matcher_Match \<lparr>TypesInfo = None, State = (\<lambda>k. None), bindingsMapping = [], setBindings = []\<rparr> a b"

subsection \<open>Concrete inputs\<close>

text \<open>A matcher inside a \<open>Match\<close> call for a pattern with the one binding name \<open>x\<close>.\<close>

definition matcher_x :: Matcher where
  "matcher_x = \<lparr>TypesInfo = None, State = (\<lambda>k. None), bindingsMapping = [''x''], setBindings = [0]\<rparr>"

text \<open>The identifiers \<open>f\<close> and \<open>g\<close> and the call \<open>f(1)\<close> as \<open>go/ast\<close> values.\<close>

definition ident_f :: val where
  "ident_f = VNode ''Ident'' [(''NamePos'', VPos 1), (''Name'', VString ''f''), (''Obj'', VScopeObject)]"

definition ident_g :: val where
  "ident_g = VNode ''Ident'' [(''NamePos'', VPos 9), (''Name'', VString ''g''), (''Obj'', VScopeObject)]"

definition call_f_1 :: val where
  "call_f_1 = VNode ''CallExpr'' [(''Fun'', ident_f), (''Lparen'', VPos 2),
     (''Args'', VSlice ExprSlice (Some [VNode ''BasicLit''
        [(''ValuePos'', VPos 3), (''Kind'', VToken ''INT''), (''Value'', VString ''1'')]])),
     (''Ellipsis'', VPos 0), (''Rparen'', VPos 4)]"

text \<open>
  The pattern \<open>(Not (CallExpr x@_ []))\<close>, and the pattern
  \<open>(Or (CallExpr (Or x@_) []) _)\<close>; both have the one binding \<open>x\<close>.
\<close>

definition not_call_pattern :: Pattern where
  "not_call_pattern = \<lparr>Root = Some (NotP (Some (Node ''CallExpr''
      [(''Fun'', Some (Binding ''x'' 0 (Some Any))), (''Args'', Some (List None None))]))),
     Bindings = [''x'']\<rparr>"

definition or_call_pattern :: Pattern where
  "or_call_pattern = \<lparr>Root = Some (Or [Some (Node ''CallExpr''
      [(''Fun'', Some (Or [Some (Binding ''x'' 0 (Some Any))])), (''Args'', Some (List None None))]),
      Some Any]),
     Bindings = [''x'']\<rparr>"

text \<open>
  The declarations \<open>type A = B; type B = C; type C int\<close> of a package \<open>pkg\<close>, and an
  identifier \<open>A\<close> that resolves to the type name \<open>A\<close>. \<open>types.Unalias\<close> of the type of
  \<open>A\<close> is the named type \<open>C\<close>, whose object is not an alias.
\<close>

definition typename_C :: typename where
  "typename_C = TypeName 3 True ''pkg.C'' None"

definition typename_A :: typename where
  "typename_A = TypeName 1 True ''pkg.A'' (Some (HasObj typename_C))"

definition ident_A :: val where
  "ident_A = VNode ''Ident'' [(''NamePos'', VPos 7), (''Name'', VString ''A''), (''Obj'', VScopeObject)]"

definition matcher_A :: Matcher where
  "matcher_A = \<lparr>TypesInfo = Some \<lparr>ObjectOf = (\<lambda>v. if v = ident_A then Some (OTypeName typename_A) else None),
                                     Types = (\<lambda>v. None), UniverseLookup = (\<lambda>n. None)\<rparr>,
                 State = (\<lambda>k. None), bindingsMapping = [], setBindings = [0]\<rparr>"

subsection \<open>Structural matching, in the words of the specification\<close>

text \<open>
  What the specification (section 4.3) calls a structural match of two host values. None
  of this is taken from the code; the properties below compare \<open>match\<close> with it.

  Normalization: both sides are unwrapped of transparent nodes, that is parenthesized
  expressions, expression statements, labeled statements, declaration statements, block
  statements (to their statement list) and field lists (to their fields); a null block,
  field list or literal stands for null.
\<close>

definition transparent :: "val \<Rightarrow> val option" where
  "transparent v =
     (case v of
        VNode k fs \<Rightarrow>
          if k = ''ParenExpr'' \<or> k = ''ExprStmt'' then map_of fs ''X''
          else if k = ''LabeledStmt'' then map_of fs ''Stmt''
          else if k = ''DeclStmt'' then map_of fs ''Decl''
          else if k = ''BlockStmt'' \<or> k = ''FieldList'' then map_of fs ''List''
          else None
      | VNilNode k \<Rightarrow>
          if k = ''BlockStmt'' \<or> k = ''FieldList'' \<or> k = ''BasicLit'' then Some VNil else None
      | _ \<Rightarrow> None)"

text \<open>
  Fields that are not compared: source positions, the legacy scope resolver
  (\<open>*ast.Object\<close>) and comment groups. Plain values are compared by equality.
\<close>

definition not_compared :: "val \<Rightarrow> bool" where
  "not_compared v =
     ((\<exists>p. v = VPos p) \<or> v = VScopeObject
      \<or> (\<exists>fs. v = VNode ''CommentGroup'' fs) \<or> v = VNilNode ''CommentGroup'')"

definition plain_value :: "val \<Rightarrow> bool" where
  "plain_value v = ((\<exists>s. v = VString s) \<or> (\<exists>i. v = VInt i) \<or> (\<exists>b. v = VBool b) \<or> (\<exists>t. v = VToken t))"

text \<open>
  A sequence of expressions, statements or fields, or a single element of that kind
  wrapped as a one-element sequence; and the identifier that names an object: an identifier
  itself or the selector of a selector expression.
\<close>

definition as_sequence :: "stype \<Rightarrow> val \<Rightarrow> val list option" where
  "as_sequence t v =
     (case v of
        VSlice t' xs \<Rightarrow> if t' = t then Some (case xs of None \<Rightarrow> [] | Some ys \<Rightarrow> ys) else None
      | VNode k fs \<Rightarrow>
          if (t = ExprSlice \<and> k \<in> set expr_types) \<or> (t = StmtSlice \<and> k \<in> set stmt_types)
             \<or> (t = FieldSlice \<and> k = ''Field'') then Some [v] else None
      | VNilNode k \<Rightarrow>
          if (t = ExprSlice \<and> k \<in> set expr_types) \<or> (t = StmtSlice \<and> k \<in> set stmt_types)
             \<or> (t = FieldSlice \<and> k = ''Field'') then Some [v] else None
      | _ \<Rightarrow> None)"

definition named_part :: "val \<Rightarrow> val option" where
  "named_part r =
     (case r of
        VNode k fs \<Rightarrow> if k = ''Ident'' then Some r
                      else if k = ''SelectorExpr'' then map_of fs ''Sel'' else None
      | VNilNode k \<Rightarrow> if k = ''Ident'' then Some r else None
      | _ \<Rightarrow> None)"

text \<open>
  The relation: after normalization, two nulls match; two nodes of the same kind match
  when their fields match position by position; a type object matches the identifier
  that resolves to it; sequences match element by element.
\<close>

inductive structurally_matches :: "types_info option \<Rightarrow> val \<Rightarrow> val \<Rightarrow> bool"
  and structurally_match_seq :: "types_info option \<Rightarrow> val list \<Rightarrow> val list \<Rightarrow> bool"
  and structurally_match_fields :: "types_info option \<Rightarrow> (string \<times> val) list \<Rightarrow> (string \<times> val) list \<Rightarrow> bool"
  for ti :: "types_info option"
where
  transparent_left: "transparent l = Some l' \<Longrightarrow> structurally_matches ti l' r \<Longrightarrow> structurally_matches ti l r"
| transparent_right: "transparent r = Some r' \<Longrightarrow> structurally_matches ti l r' \<Longrightarrow> structurally_matches ti l r"
| both_null: "structurally_matches ti VNil VNil"
| null_pointers: "structurally_matches ti (VNilNode k) (VNilNode k)"
| same_kind: "structurally_match_fields ti fs gs \<Longrightarrow> structurally_matches ti (VNode k fs) (VNode k gs)"
| type_object:
    "ti = Some i \<Longrightarrow> named_part r = Some x \<Longrightarrow> ObjectOf i x = Some obj \<Longrightarrow>
       structurally_matches ti (VObject obj) r"
| sequences:
    "as_sequence t l = Some xs \<Longrightarrow> as_sequence t r = Some ys \<Longrightarrow> structurally_match_seq ti xs ys \<Longrightarrow>
       structurally_matches ti l r"
| seq_nil: "structurally_match_seq ti [] []"
| seq_cons:
    "structurally_matches ti x y \<Longrightarrow> structurally_match_seq ti xs ys \<Longrightarrow> structurally_match_seq ti (x # xs) (y # ys)"
| fields_nil: "structurally_match_fields ti [] gs"
| field_not_compared:
    "not_compared (snd f) \<Longrightarrow> structurally_match_fields ti fs gs \<Longrightarrow> structurally_match_fields ti (f # fs) (g # gs)"
| field_plain:
    "plain_value (snd f) \<Longrightarrow> snd f = snd g \<Longrightarrow> structurally_match_fields ti fs gs \<Longrightarrow>
       structurally_match_fields ti (f # fs) (g # gs)"
| field_slice:
    "snd f = VSlice t xs \<Longrightarrow> length (elems (snd f)) = length (elems (snd g)) \<Longrightarrow>
       structurally_match_seq ti (elems (snd f)) (elems (snd g)) \<Longrightarrow> structurally_match_fields ti fs gs \<Longrightarrow>
       structurally_match_fields ti (f # fs) (g # gs)"
| field_node:
    "structurally_matches ti (snd f) (snd g) \<Longrightarrow> structurally_match_fields ti fs gs \<Longrightarrow>
       structurally_match_fields ti (f # fs) (g # gs)"

section \<open>The lifting pass (go/ir/lift.go)\<close>

subsection \<open>The intermediate representation\<close>

text \<open>
  Instructions and values live in a heap and are named by references (Go pointers). A
  basic block is named by its position in \<open>fn.Blocks\<close>, which is its \<open>Index\<close>. A panic
  of the Go code (a nil dereference, an index out of range) is the result \<open>None\<close>.
\<close>

text \<open>
  An instruction or value is the pair that a Go interface value is: its dynamic type
  (\<open>kind\<close>) and the address of the object. A pointer of a static type such as \<open>*Alloc\<close>
  or \<open>*Phi\<close> is the address alone. \<open>ref option\<close> is an interface value that may be nil.
\<close>

datatype ikind =
    Alloc | Store | Load | Phi | SigmaI | DebugRef | Defer | RunDefers | Call
  | CompositeValue | Const | OtherInstr | OtherValue

datatype ref = Ref (kind: ikind) (addr: nat)

text \<open>
  The objects, field by field. \<open>operands r\<close> are the operand slots of \<open>r\<close> in the order
  of \<open>Operands()\<close>: \<open>Addr\<close>, \<open>Val\<close> for a \<open>Store\<close>; \<open>X\<close> for a \<open>Load\<close>, a \<open>DebugRef\<close>
  and a \<open>Sigma\<close>; the \<open>Edges\<close> for a \<open>Phi\<close>; the \<open>Values\<close> for a \<open>CompositeValue\<close>;
  \<open>_DeferStack\<close> in the last slot of a \<open>Defer\<close>. \<open>referrers r\<close> is what \<open>Referrers()\<close>
  points to (\<open>None\<close>: it returns nil). \<open>index\<close> and \<open>Heap\<close> are fields of an \<open>Alloc\<close>,
  \<open>IsAddr\<close> of a \<open>DebugRef\<close>, \<open>From\<close> of a \<open>Sigma\<close>, \<open>live\<close> of a \<open>Phi\<close> or \<open>Sigma\<close>.
  \<open>next_addr\<close> is the address of the next object to be allocated. Types, comments and
  source positions are not modelled: no branch of the pass reads them.
\<close>

record store =
  operands :: "ref \<Rightarrow> ref option list"
  referrers :: "ref \<Rightarrow> ref list option"
  block :: "ref \<Rightarrow> nat option"
  ID :: "ref \<Rightarrow> int"
  index :: "ref \<Rightarrow> int"
  Heap :: "ref \<Rightarrow> bool"
  IsAddr :: "ref \<Rightarrow> bool"
  From :: "ref \<Rightarrow> nat"
  live :: "ref \<Rightarrow> bool"
  next_addr :: nat

text \<open>
  A basic block, named by its index in \<open>fn.Blocks\<close>: \<open>Instrs\<close> (a \<open>None\<close> is a nil slot)
  and the capacity of that slice, the predecessors and successors, the links of the
  dominator tree and of the post-dominator tree, and the counters \<open>gaps\<close> and
  \<open>rundefers\<close>.
\<close>

record BasicBlock =
  Instrs :: "ref option list"
  Instrs_cap :: nat
  Preds :: "nat list"
  Succs :: "nat list"
  dom_idom :: "nat option"
  dom_children :: "nat list"
  pdom_idom :: "nat option"
  gaps :: nat
  rundefers :: nat

text \<open>
  A function and its objects (\<open>mem\<close>). \<open>deferstack_var\<close> is \<open>fn.vars[fn.deferstack]\<close>.
  The remaining fields are the helpers that \<open>lift.go\<close> calls and that are not among the
  sources; they are parameters of the model: \<open>Dominates fn s v\<close> is \<open>s.Dominates(v)\<close>,
  \<open>predIndex fn b c\<close> is \<open>b.predIndex(c)\<close>, \<open>succIndex fn b c\<close> is \<open>b.succIndex(c)\<close>,
  \<open>isUselessPhi fn m phi\<close> is \<open>isUselessPhi(phi)\<close> in the memory \<open>m\<close>, \<open>phis fn m b\<close> is
  \<open>b.phis()\<close>, and \<open>zeroConst fn m alloc\<close> is the constant that
  \<open>emitConst(fn, zeroConst(\<dots>))\<close> finds among the constants of the function, if there
  is one (otherwise a new constant is allocated). \<open>growslice fn c n\<close> is the capacity that
  the runtime gives a slice of capacity \<open>c\<close> when \<open>append\<close> extends it to the length
  \<open>n > c\<close>.
\<close>

record Function =
  Blocks :: "BasicBlock list"
  Locals :: "nat list"
  Exit :: "nat option"
  fakeExits :: "bool list"
  hasDefer :: bool
  results :: "nat list"
  deferstack_var :: "ref option"
  Dominates :: "nat \<Rightarrow> nat \<Rightarrow> bool"
  predIndex :: "BasicBlock \<Rightarrow> nat \<Rightarrow> int"
  succIndex :: "BasicBlock \<Rightarrow> nat \<Rightarrow> int"
  isUselessPhi :: "store \<Rightarrow> nat \<Rightarrow> ref option \<times> bool"
  phis :: "store \<Rightarrow> BasicBlock \<Rightarrow> ref list"
  zeroConst :: "store \<Rightarrow> nat \<Rightarrow> ref option"
  growslice :: "nat \<Rightarrow> nat \<Rightarrow> nat"
  mem :: store

subsection \<open>The transitive closure of reachability\<close>

type_synonym interval = "32 word"

record closure =
  span :: "32 word list"
  reachables :: "interval list"

definition flagMask :: "32 word" where "flagMask = push_bit 31 1"
definition numBits :: nat where "numBits = 20"
definition lengthBits :: nat where "lengthBits = 32 - numBits - 1"
definition lengthMask :: "32 word" where "lengthMask = push_bit numBits (push_bit lengthBits 1 - 1)"
definition numMask :: "32 word" where "numMask = push_bit numBits 1 - 1"

text \<open>\<open>c.reachable(id)\<close>: the slice expression panics when its bounds are not in order.\<close>

definition reachable :: "closure \<Rightarrow> nat \<Rightarrow> interval list option" where
  "reachable c i =
     (if Suc i < length (span c) then
        let lo = unat (span c ! i); hi = unat (span c ! Suc i) in
        if lo \<le> hi \<and> hi \<le> length (reachables c)
        then Some (take (hi - lo) (drop lo (reachables c))) else None
      else None)"

text \<open>The loop of \<open>closure.has\<close> over the intervals \<open>r\<close>, from the position it has reached.\<close>

fun has_loop :: "interval list \<Rightarrow> 32 word \<Rightarrow> bool option" where
  "has_loop [] idx = Some False"
| "has_loop (iv # r) idx =
     (if iv AND flagMask = 0 then
        \<comment> \<open>small interval\<close>
        (let start = iv AND numMask;
             end' = start + drop_bit numBits (iv AND lengthMask)
         in if idx \<ge> start \<and> idx \<le> end' then Some True else has_loop r idx)
      else
        \<comment> \<open>large interval\<close>
        (case r of
           [] \<Rightarrow> None
         | e # r' \<Rightarrow>
            (let start = iv AND numMask; end' = e
             in if idx \<ge> start \<and> idx \<le> end' then Some True else has_loop r' idx)))"

definition has :: "Function \<Rightarrow> closure \<Rightarrow> nat \<Rightarrow> nat \<Rightarrow> bool option" where
  "has fn c s v =
     (let idx = (word_of_nat v :: 32 word) in
      if idx = 1 \<or> Dominates fn s v then Some True
      else (case reachable c s of None \<Rightarrow> None | Some r \<Rightarrow> has_loop r idx))"

text \<open>
  \<open>closure.walk\<close>: the depth-first search that marks in \<open>visited\<close> the blocks reachable
  from \<open>b\<close>; \<open>walk_succs\<close> is its loop over the successors.
\<close>

definition unvisited :: "bool list \<Rightarrow> nat" where
  "unvisited visited = length (filter (\<lambda>x. \<not> x) visited)"

function walk :: "BasicBlock list \<Rightarrow> nat \<Rightarrow> bool list \<Rightarrow> bool list option"
  and walk_succs :: "BasicBlock list \<Rightarrow> nat list \<Rightarrow> bool list \<Rightarrow> bool list option"
where
  "walk blocks b visited =
     (if b < length visited \<and> b < length blocks
      then walk_succs blocks (Succs (blocks ! b)) (visited[b := True])
      else None)"
| "walk_succs blocks [] visited = Some visited"
| "walk_succs blocks (succ # rest) visited =
     (if \<not> succ < length visited then None
      else if visited ! succ then walk_succs blocks rest visited
      else (case walk blocks succ (visited[succ := True]) of
              None \<Rightarrow> None
            | Some visited' \<Rightarrow> walk_succs blocks rest visited'))"
  by pat_completeness auto

lemma unvisited_update_le: "unvisited (xs[i := True]) \<le> unvisited xs"
  unfolding unvisited_def
  by (induction xs arbitrary: i) (auto split: nat.splits simp: le_SucI)

lemma unvisited_update_less:
  "i < length xs \<Longrightarrow> \<not> xs ! i \<Longrightarrow> unvisited (xs[i := True]) < unvisited xs"
  unfolding unvisited_def
proof (induction xs arbitrary: i)
  case Nil
  then show ?case by simp
next
  case (Cons x xs)
  show ?case
  proof (cases i)
    case 0
    with Cons.prems show ?thesis by simp
  next
    case (Suc j)
    with Cons.prems Cons.IH [of j] show ?thesis by simp
  qed
qed

lemma walk_result_dom:
  "walk_walk_succs_dom (Inl (blocks, b, visited)) \<Longrightarrow> walk blocks b visited = Some v' \<Longrightarrow>
     length v' = length visited \<and> unvisited v' \<le> unvisited visited"
  "walk_walk_succs_dom (Inr (blocks, succs, visited)) \<Longrightarrow> walk_succs blocks succs visited = Some v'' \<Longrightarrow>
     length v'' = length visited \<and> unvisited v'' \<le> unvisited visited"
proof (induct arbitrary: v' and v'' rule: walk_walk_succs.pinduct)
  case (1 blocks b visited)
  from 1(1,3) have c: "b < length visited" "b < length blocks"
    and r: "walk_succs blocks (Succs (blocks ! b)) (visited[b := True]) = Some v'"
    by (auto simp: walk.psimps split: if_splits)
  from 1(2) [OF _ r] c have "length v' = length visited"
    "unvisited v' \<le> unvisited (visited[b := True])" by auto
  then show ?case using unvisited_update_le [of visited b] by simp
next
  case (2 blocks visited)
  then show ?case by (simp add: walk_succs.psimps)
next
  case (3 blocks succ rest visited)
  from 3(1,5) have c: "succ < length visited"
    by (auto simp: walk_succs.psimps split: if_splits)
  show ?case
  proof (cases "visited ! succ")
    case True
    with 3(1,5) c have "walk_succs blocks rest visited = Some v''"
      by (simp add: walk_succs.psimps)
    from 3(2) [OF _ True this] c show ?thesis by simp
  next
    case False
    with 3(1,5) c obtain w where w: "walk blocks succ (visited[succ := True]) = Some w"
      and r: "walk_succs blocks rest w = Some v''"
      by (auto simp: walk_succs.psimps split: option.splits)
    from 3(3) [OF _ False w] c have w1: "length w = length visited"
      "unvisited w \<le> unvisited (visited[succ := True])" by auto
    from 3(4) [OF _ False w r] c have "length v'' = length w" "unvisited v'' \<le> unvisited w" by auto
    with w1 unvisited_update_le [of visited succ] show ?thesis by simp
  qed
qed

termination walk
proof (relation "inv_image (less_than <*lex*> less_than <*lex*> less_than)
    (\<lambda>x. case x of Inl (blocks, b, visited) \<Rightarrow> (unvisited visited, 1, 0)
                | Inr (blocks, succs, visited) \<Rightarrow> (unvisited visited, 0, length succs))",
    goal_cases)
  case 1
  show ?case by (intro wf_inv_image wf_lex_prod wf_less_than)
next
  case (2 blocks b visited)
  then show ?case using unvisited_update_le [of visited b] by auto
next
  case (3 blocks succ rest visited)
  then show ?case by simp
next
  case (4 blocks succ rest visited)
  then show ?case using unvisited_update_less [of succ visited] by simp
next
  case (5 blocks succ rest visited v')
  then show ?case
    using walk_result_dom(1) [of blocks succ "visited[succ := True]" v']
      unvisited_update_less [of succ visited]
    by auto
qed

text \<open>\<open>addInterval\<close>, the closure inside \<open>transitiveClosure\<close>, on \<open>c.reachables\<close>.\<close>

definition addInterval :: "32 word \<Rightarrow> 32 word \<Rightarrow> interval list \<Rightarrow> interval list" where
  "addInterval start end' rs =
     (let l = end' - start in
      if l \<le> push_bit lengthBits 1 - 1 then rs @ [push_bit numBits l OR start]
      else rs @ [push_bit 31 1 OR start, end'])"

text \<open>
  The loop of \<open>transitiveClosure\<close> over the array \<open>reachable\<close>, at index \<open>i\<close> with the
  current \<open>start\<close> (\<open>- 1\<close> is \<open>^uint32(0)\<close>), and the step after the loop.
\<close>

fun scan :: "bool list \<Rightarrow> nat \<Rightarrow> 32 word \<Rightarrow> interval list \<Rightarrow> 32 word \<times> interval list" where
  "scan [] i start rs = (start, rs)"
| "scan (isReachable # rest) i start rs =
     (if \<not> isReachable then
        (if start \<noteq> - 1
         then scan rest (Suc i) (- 1) (addInterval start (word_of_nat i - 1) rs)
         else scan rest (Suc i) start rs)
      else if start = - 1 then scan rest (Suc i) (word_of_nat i) rs
      else scan rest (Suc i) start rs)"

definition add_intervals :: "bool list \<Rightarrow> interval list \<Rightarrow> interval list" where
  "add_intervals reach rs =
     (case scan reach 0 (- 1) rs of
        (start, rs') \<Rightarrow>
          if start \<noteq> - 1 then addInterval start (word_of_nat (length reach) - 1) rs' else rs')"

text \<open>The loop of \<open>transitiveClosure\<close> over \<open>fn.Blocks[1:]\<close>; \<open>b\<close> is the index \<open>i + 1\<close>.\<close>

fun tc_loop :: "BasicBlock list \<Rightarrow> nat list \<Rightarrow> closure \<Rightarrow> closure option" where
  "tc_loop blocks [] c = Some c"
| "tc_loop blocks (b # bs) c =
     (case walk blocks b (replicate (length blocks) False) of
        None \<Rightarrow> None
      | Some reach \<Rightarrow>
         (let rs = add_intervals reach (reachables c) in
          if Suc b < length (span c)
          then tc_loop blocks bs (c\<lparr>span := (span c)[Suc b := word_of_nat (length rs)], reachables := rs\<rparr>)
          else None))"

definition transitiveClosure :: "Function \<Rightarrow> closure option" where
  "transitiveClosure fn =
     (if length (Blocks fn) = 0 then None
      else tc_loop (Blocks fn) [1..<length (Blocks fn)]
             \<lparr>span = replicate (length (Blocks fn) + 1) 0, reachables = []\<rparr>)"

subsection \<open>Notions for the properties of the closure\<close>

text \<open>
  An interval list is well formed when every large interval has its second word;
  \<open>small_has\<close> and \<open>large_has\<close> are the range tests of \<open>closure.has\<close> for the two
  formats; \<open>dec_ok rs P\<close>: the list \<open>rs\<close> decodes to the set \<open>P\<close> of block indices.
\<close>

fun wf_ivs :: "interval list \<Rightarrow> bool" where
  "wf_ivs [] = True"
| "wf_ivs (iv # r) =
     (if iv AND flagMask = 0 then wf_ivs r else (case r of [] \<Rightarrow> False | e # r' \<Rightarrow> wf_ivs r'))"

definition small_has :: "interval \<Rightarrow> 32 word \<Rightarrow> bool" where
  "small_has iv idx = (idx \<ge> iv AND numMask \<and> idx \<le> (iv AND numMask) + drop_bit numBits (iv AND lengthMask))"

definition large_has :: "interval \<Rightarrow> 32 word \<Rightarrow> 32 word \<Rightarrow> bool" where
  "large_has iv e idx = (idx \<ge> iv AND numMask \<and> idx \<le> e)"

definition dec_ok :: "interval list \<Rightarrow> (nat \<Rightarrow> bool) \<Rightarrow> bool" where
  "dec_ok rs P = (wf_ivs rs \<and> (\<forall>j<2^20. has_loop rs (word_of_nat j) = Some (P j)))"

text \<open>The step of \<open>transitiveClosure\<close> after the scan, and the intervals of one block.\<close>

definition finish :: "32 word \<times> interval list \<Rightarrow> nat \<Rightarrow> interval list" where
  "finish x n = (case x of (start, rs) \<Rightarrow>
      if start \<noteq> - 1 then addInterval start (word_of_nat n - 1) rs else rs)"

definition ivs_of :: "BasicBlock list \<Rightarrow> nat \<Rightarrow> interval list" where
  "ivs_of blocks b =
     (case walk blocks b (replicate (length blocks) False) of
        None \<Rightarrow> [] | Some reach \<Rightarrow> add_intervals reach [])"

text \<open>Every successor is a block of the function.\<close>

definition succs_ok :: "BasicBlock list \<Rightarrow> bool" where
  "succs_ok blocks = (\<forall>b\<in>set blocks. \<forall>s\<in>set (Succs b). s < length blocks)"

text \<open>
  Functions given by their control-flow graph only: \<open>fn_loop\<close> has the edges
  \<open>0 \<rightarrow> 1\<close>, \<open>0 \<rightarrow> 2\<close>, \<open>2 \<rightarrow> 3\<close>, \<open>3 \<rightarrow> 2\<close>; \<open>fan n\<close> has \<open>n\<close> blocks and
  an edge from block 0 to every other block. \<open>Dominates\<close> is what the dominator tree of
  these graphs gives.
\<close>

definition cfg_block :: "nat list \<Rightarrow> nat list \<Rightarrow> BasicBlock" where
  "cfg_block preds succs =
     \<lparr>Instrs = [], Instrs_cap = 0, Preds = preds, Succs = succs, dom_idom = None,
      dom_children = [], pdom_idom = None, gaps = 0, rundefers = 0\<rparr>"

definition empty_store :: store where
  "empty_store =
     \<lparr>operands = (\<lambda>r. []), referrers = (\<lambda>r. None), block = (\<lambda>r. None), ID = (\<lambda>r. 0),
      index = (\<lambda>r. 0), Heap = (\<lambda>r. False), IsAddr = (\<lambda>r. False), From = (\<lambda>r. 0),
      live = (\<lambda>r. False), next_addr = 0\<rparr>"

definition cfg_function :: "BasicBlock list \<Rightarrow> (nat \<Rightarrow> nat \<Rightarrow> bool) \<Rightarrow> Function" where
  "cfg_function blocks dominates =
     \<lparr>Blocks = blocks, Locals = [], Exit = None, fakeExits = [], hasDefer = False,
      results = [], deferstack_var = None, Dominates = dominates,
      predIndex = (\<lambda>b c. - 1), succIndex = (\<lambda>b c. - 1), isUselessPhi = (\<lambda>m phi. (None, False)),
      phis = (\<lambda>m b. []), zeroConst = (\<lambda>m a. None), growslice = (\<lambda>c n. 2 * n),
      mem = empty_store\<rparr>"

definition fn_loop :: Function where
  "fn_loop = cfg_function
     [cfg_block [] [1, 2], cfg_block [0] [], cfg_block [0, 3] [3], cfg_block [2] [2]]
     (\<lambda>a b. a = 0 \<or> a = b \<or> (a = 2 \<and> b = 3))"

definition fan :: "nat \<Rightarrow> Function" where
  "fan n = cfg_function (cfg_block [] [1..<n] # map (\<lambda>i. cfg_block [0] []) [1..<n])
             (\<lambda>a b. a = 0 \<or> a = b)"

subsection \<open>Slices, referrers and block sets\<close>


text \<open>The operand slot \<open>i\<close> of \<open>r\<close>; a slot that the object does not have reads as nil.\<close>

definition opnd :: "store \<Rightarrow> ref \<Rightarrow> nat \<Rightarrow> ref option" where
  "opnd m r i = (if i < length (operands m r) then operands m r ! i else None)"










text \<open>
  \<open>BlockSet\<close> (its fields are \<open>idx\<close>, \<open>values\<close> and \<open>count\<close>) and its methods. \<open>Add\<close>
  panics on an index that \<open>bs_values\<close> does not have.
\<close>

record BlockSet =
  bs_idx :: nat
  bs_values :: "bool list"
  count :: int



definition BlockSet_Has :: "BlockSet \<Rightarrow> nat \<Rightarrow> bool" where
  "BlockSet_Has s b = (if b \<ge> length (bs_values s) then False else bs_values s ! b)"







subsection \<open>Dominance frontiers\<close>







subsection \<open>\<open>liftable\<close>\<close>

record blockDesc =
  isUnliftable :: bool
  hasLiftableLoad :: bool
  hasLiftableOther :: bool
  storeInPreds :: bool
  lastLiftable :: int
  firstUnliftable :: int










text \<open>
  The closure \<open>dfs\<close> of \<open>liftable\<close>: every block reachable from an unliftable block is
  unliftable as a whole. \<open>dfs_succs\<close> is its loop over the successors.
\<close>

definition mark_unliftable :: "blockDesc \<Rightarrow> blockDesc" where
  "mark_unliftable desc =
     desc\<lparr>hasLiftableLoad := False, hasLiftableOther := False, isUnliftable := True,
          firstUnliftable := 0, storeInPreds := True\<rparr>"

function dfs :: "BasicBlock list \<Rightarrow> nat \<Rightarrow> bool list \<times> blockDesc list
      \<Rightarrow> (bool list \<times> blockDesc list) option"
  and dfs_succs :: "BasicBlock list \<Rightarrow> nat list \<Rightarrow> bool list \<times> blockDesc list
      \<Rightarrow> (bool list \<times> blockDesc list) option"
where
  "dfs blocks b st =
     (if \<not> (b < length (fst st) \<and> b < length (snd st) \<and> b < length blocks) then None
      else if fst st ! b then Some st
      else dfs_succs blocks (Succs (blocks ! b))
             ((fst st)[b := True], (snd st)[b := mark_unliftable (snd st ! b)]))"
| "dfs_succs blocks [] st = Some st"
| "dfs_succs blocks (succ # rest) st =
     (case dfs blocks succ st of
        None \<Rightarrow> None
      | Some st' \<Rightarrow> dfs_succs blocks rest st')"
  by pat_completeness auto

lemma dfs_result_dom:
  "dfs_dfs_succs_dom (Inl (blocks, b, st)) \<Longrightarrow> dfs blocks b st = Some st' \<Longrightarrow>
     length (fst st') = length (fst st) \<and> unvisited (fst st') \<le> unvisited (fst st)"
  "dfs_dfs_succs_dom (Inr (blocks, succs, st0)) \<Longrightarrow> dfs_succs blocks succs st0 = Some st1 \<Longrightarrow>
     length (fst st1) = length (fst st0) \<and> unvisited (fst st1) \<le> unvisited (fst st0)"
proof (induct arbitrary: st' and st1 rule: dfs_dfs_succs.pinduct)
  case (1 blocks b st)
  show ?case
  proof (cases "fst st ! b")
    case True
    with 1(1,3) show ?thesis by (simp add: dfs.psimps split: if_splits)
  next
    case False
    with 1(1,3) have c: "b < length (fst st)" "b < length (snd st)" "b < length blocks"
      and r: "dfs_succs blocks (Succs (blocks ! b))
                ((fst st)[b := True], (snd st)[b := mark_unliftable (snd st ! b)]) = Some st'"
      by (auto simp: dfs.psimps split: if_splits)
    from 1(2) [OF _ False r] c have "length (fst st') = length (fst st)"
      "unvisited (fst st') \<le> unvisited ((fst st)[b := True])" by auto
    then show ?thesis using unvisited_update_le [of "fst st" b] by simp
  qed
next
  case (2 blocks st)
  then show ?case by (simp add: dfs_succs.psimps)
next
  case (3 blocks succ rest st)
  from 3(1,4) obtain w where w: "dfs blocks succ st = Some w"
    and r: "dfs_succs blocks rest w = Some st1"
    by (auto simp: dfs_succs.psimps split: option.splits)
  from 3(2) [OF w] have "length (fst w) = length (fst st)" "unvisited (fst w) \<le> unvisited (fst st)"
    by auto
  moreover from 3(3) [OF w r] have "length (fst st1) = length (fst w)"
    "unvisited (fst st1) \<le> unvisited (fst w)" by auto
  ultimately show ?case by simp
qed

termination dfs
proof (relation "inv_image (less_than <*lex*> less_than <*lex*> less_than)
    (\<lambda>x. case x of Inl (blocks, b, st) \<Rightarrow> (unvisited (fst st), 0, 0)
                | Inr (blocks, succs, st) \<Rightarrow> (unvisited (fst st), 1, length succs))",
    goal_cases)
  case 1
  show ?case by (intro wf_inv_image wf_lex_prod wf_less_than)
next
  case (2 blocks b st)
  then show ?case using unvisited_update_less [of b "fst st"] by simp
next
  case (3 blocks succ rest st)
  then show ?case by simp
next
  case (4 blocks succ rest st st')
  then show ?case using dfs_result_dom(1) [of blocks succ st st'] by auto
qed








subsection \<open>Renaming split allocs and inserting the recorded instructions\<close>








subsection \<open>\<open>liftAlloc\<close>\<close>
























































subsection \<open>Renaming\<close>



















subsection \<open>\<open>simplifyPhisAndSigmas\<close>\<close>












definition unmarked :: "ref list \<Rightarrow> store \<Rightarrow> nat" where
  "unmarked nodes m = length (filter (\<lambda>r. \<not> live m r) nodes)"




lemma filter_count_mono:
  assumes "\<forall>r. P r \<longrightarrow> Q r"
  shows "length (filter (\<lambda>r. \<not> Q r) xs) \<le> length (filter (\<lambda>r. \<not> P r) xs)"
  using assms by (induction xs) auto

lemma filter_count_less:
  assumes "\<forall>r. P r \<longrightarrow> Q r" and "x \<in> set xs" and "\<not> P x" and "Q x"
  shows "length (filter (\<lambda>r. \<not> Q r) xs) < length (filter (\<lambda>r. \<not> P r) xs)"
  using assms(2)
proof (induction xs)
  case Nil
  then show ?case by simp
next
  case (Cons a xs)
  note mono = filter_count_mono [OF assms(1), of xs]
  show ?case
  proof (cases "a = x")
    case True
    with assms(3,4) mono show ?thesis by simp
  next
    case False
    with Cons have "length (filter (\<lambda>r. \<not> Q r) xs) < length (filter (\<lambda>r. \<not> P r) xs)" by simp
    with assms(1) show ?thesis by auto
  qed
qed


















subsection \<open>\<open>markLiveNodes\<close>\<close>

text \<open>
  \<open>markLivePhi\<close> and \<open>markLiveSigma\<close> are \<open>markLive\<close> on a reference of the kind;
  \<open>markLive_rands\<close> is the loop over \<open>phi.Edges\<close>, and for a \<open>Sigma\<close> the \<open>switch\<close> on
  \<open>sigma.X\<close>. Every object that exists has an address below \<open>next_addr\<close>; an edge to
  an address that is not in use is a result \<open>None\<close>.
\<close>

function markLive :: "ref \<Rightarrow> store \<Rightarrow> store option"
  and markLive_rands :: "ref option list \<Rightarrow> store \<Rightarrow> store option"
where
  "markLive r m =
     markLive_rands (if kind r = Phi then operands m r else [opnd m r 0])
       (m\<lparr>live := (live m)(r := True)\<rparr>)"
| "markLive_rands [] m = Some m"
| "markLive_rands (rand # rest) m =
     (case rand of
        None \<Rightarrow> markLive_rands rest m
      | Some x \<Rightarrow>
          if (kind x = Phi \<or> kind x = SigmaI) \<and> \<not> live m x then
            (if next_addr m \<le> addr x then None
             else (case markLive x m of
                     None \<Rightarrow> None
                   | Some m' \<Rightarrow> markLive_rands rest m'))
          else markLive_rands rest m)"
  by pat_completeness auto

definition all_nodes :: "nat \<Rightarrow> ref list" where
  "all_nodes n = map (Ref Phi) [0..<n] @ map (Ref SigmaI) [0..<n]"

lemma markLive_result_dom:
  "markLive_markLive_rands_dom (Inl (r, m)) \<Longrightarrow> markLive r m = Some m' \<Longrightarrow>
     next_addr m' = next_addr m \<and> (\<forall>x. live m x \<longrightarrow> live m' x)"
  "markLive_markLive_rands_dom (Inr (rands, m0)) \<Longrightarrow> markLive_rands rands m0 = Some m1 \<Longrightarrow>
     next_addr m1 = next_addr m0 \<and> (\<forall>x. live m0 x \<longrightarrow> live m1 x)"
proof (induct arbitrary: m' and m1 rule: markLive_markLive_rands.pinduct)
  case (1 r m)
  from 1(1,3) have "markLive_rands (if kind r = Phi then operands m r else [opnd m r 0])
       (m\<lparr>live := (live m)(r := True)\<rparr>) = Some m'"
    by (simp add: markLive.psimps)
  from 1(2) [OF this] show ?case by simp
next
  case (2 m)
  then show ?case by (simp add: markLive_rands.psimps)
next
  case (3 rand rest m)
  show ?case
  proof (cases "\<exists>x. rand = Some x \<and> (kind x = Phi \<or> kind x = SigmaI) \<and> \<not> live m x")
    case True
    then obtain x where x: "rand = Some x" "kind x = Phi \<or> kind x = SigmaI" "\<not> live m x" by blast
    with 3(1,6) obtain w where a: "\<not> next_addr m \<le> addr x" and w: "markLive x m = Some w"
      and r: "markLive_rands rest w = Some m1"
      by (auto simp: markLive_rands.psimps split: option.splits if_splits)
    from x a have c: "(kind x = Phi \<or> kind x = SigmaI) \<and> \<not> live m x" by simp
    from 3(3) [OF x(1) c a w] have 1: "next_addr w = next_addr m" "\<forall>x. live m x \<longrightarrow> live w x"
      by auto
    from 3(4) [OF x(1) c a w r] have "next_addr m1 = next_addr w" "\<forall>x. live w x \<longrightarrow> live m1 x"
      by auto
    with 1 show ?thesis by simp
  next
    case False
    show ?thesis
    proof (cases rand)
      case None
      with 3(1,6) have "markLive_rands rest m = Some m1" by (simp add: markLive_rands.psimps)
      from 3(2) [OF None this] show ?thesis .
    next
      case (Some x)
      with False have c: "\<not> ((kind x = Phi \<or> kind x = SigmaI) \<and> \<not> live m x)" by simp
      with 3(1,6) Some have "markLive_rands rest m = Some m1"
        by (auto simp: markLive_rands.psimps)
      from 3(5) [OF Some c this] show ?thesis .
    qed
  qed
qed

lemma mark_dead_less:
  assumes "kind x = Phi \<or> kind x = SigmaI" and "\<not> live m x" and "addr x < next_addr m"
  shows "unmarked (all_nodes (next_addr m)) (m\<lparr>live := (live m)(x := True)\<rparr>)
       < unmarked (all_nodes (next_addr m)) m"
proof -
  from assms(1,3) have mem: "x \<in> set (all_nodes (next_addr m))"
    by (cases x) (auto simp: all_nodes_def)
  show ?thesis unfolding unmarked_def
    by (rule filter_count_less [OF _ mem]) (use assms(2) in auto)
qed

termination markLive
proof (relation "inv_image (less_than <*lex*> less_than <*lex*> less_than)
    (\<lambda>x. case x of
            Inl (r, m) \<Rightarrow> (unmarked (all_nodes (next_addr m)) (m\<lparr>live := (live m)(r := True)\<rparr>), 1, 0)
          | Inr (rands, m) \<Rightarrow> (unmarked (all_nodes (next_addr m)) m, 0, length rands))",
    goal_cases)
  case 1
  show ?case by (intro wf_inv_image wf_lex_prod wf_less_than)
next
  case (2 r m)
  then show ?case by simp
next
  case (3 rand rest m)
  then show ?case by simp
next
  case (4 rand rest m x)
  then show ?case using mark_dead_less [of x m] by auto
next
  case (5 rand rest m x m')
  from markLive_result_dom(1) [OF 5(5,4)]
  have "next_addr m' = next_addr m" "\<forall>x. live m x \<longrightarrow> live m' x" by auto
  with filter_count_mono [of "live m" "live m'" "all_nodes (next_addr m)"]
  show ?case by (auto simp: unmarked_def)
next
  case (6 rand rest m x)
  then show ?case by simp
qed





subsection \<open>\<open>lift\<close>\<close>


















subsection \<open>Notions for the properties of \<open>lift\<close>\<close>








section \<open>Properties of the pattern matcher\<close>

lemma match_Or_Nil:
  "match m (Some (Or [])) r = Inr (res, m') \<Longrightarrow> res = (VNil, False) \<and> m' = m"
proof (induction "vsize r" arbitrary: r rule: less_induct)
  case less
  show ?case
  proof (cases "unwrap_r r")
    case None
    with less.prems show ?thesis by simp
  next
    case (Some a)
    show ?thesis
    proof (cases a)
      case (Inl e)
      with Some less.prems show ?thesis by simp
    next
      case (Inr r')
      with Some have "vsize r' < vsize r" by (simp add: vsize_unwrap_r)
      moreover from Some Inr less.prems have "match m (Some (Or [])) r' = Inr (res, m')" by simp
      ultimately show ?thesis by (rule less.hyps)
    qed
  qed
qed

text \<open>
  C10. For every node \<open>n\<close>, matching an \<open>Or\<close> pattern whose list of alternatives is empty
  fails (returns false) and leaves the matcher unchanged: \<open>Or.Match\<close> returns
  \<open>(nil, false)\<close> at once, and so does \<open>match\<close> whenever normalising \<open>n\<close> does not panic.
\<close>

theorem Or_Match_empty:
  "Or_Match m [] n = Inr ((VNil, False), m) \<and>
   (\<forall>res m'. match m (Some (Or [])) n = Inr (res, m') \<longrightarrow> res = (VNil, False) \<and> m' = m)"
  using match_Or_Nil by simp

theorem Or_Match_empty_witness:
  "Or_Match matcher_x [] call_f_1 = Inr ((VNil, False), matcher_x) \<and>
   match matcher_x (Some (Or [])) call_f_1 = Inr ((VNil, False), matcher_x)"
  using Or_Match_empty [of matcher_x call_f_1]
  by (simp add: call_f_1_def unwrap_r_def)


lemmas matcher_ops = push_def pop_def merge_def set_binding_def isNil_def Any_Match_def
  Nil_Match_def Token_Match_def is_slice_def slice_type_def elems_def unwrap_r_def unwrap_l_def
  get_field_def is_ast_node_def type_name_def node_fields_def

text \<open>
  C7, as amended. The empty \<open>List\<close> pattern (a \<open>List\<close> whose head is nil) matches \<open>n\<close> if
  and only if \<open>n\<close> is a slice of length zero, a nil slice included; the bindings do not
  change; and it never matches the nil interface (what an absent else branch is).
\<close>

theorem List_Match_empty:
  "isNil h \<Longrightarrow>
   List_Match m h t n = Inr ((if is_slice n then n else VNil, is_slice n \<and> length (elems n) = 0), m)
   \<and> match m (Some (List h t)) VNil = Inr ((VNil, False), m)"
  by (simp add: unwrap_r_def is_slice_def)

theorem List_Match_empty_witness:
  "isNil None \<and>
   List_Match matcher_x None None (VSlice ExprSlice (Some [])) =
     Inr ((VSlice ExprSlice (Some []), True), matcher_x) \<and>
   List_Match matcher_x None None call_f_1 = Inr ((VNil, False), matcher_x) \<and>
   match matcher_x (Some (List None None)) VNil = Inr ((VNil, False), matcher_x)"
  using List_Match_empty [of None matcher_x None "VSlice ExprSlice (Some [])"]
    List_Match_empty [of None matcher_x None call_f_1]
  by (simp add: isNil_def is_slice_def elems_def call_f_1_def)

text \<open>
  C7 as stated fails: the empty \<open>List\<close> matches a nil slice, such as the statement list of
  an empty block, which is not a non-null sequence.
\<close>

theorem List_Match_empty_nil_slice:
  "List_Match matcher_x None None (VSlice StmtSlice None) =
     Inr ((VSlice StmtSlice None, True), matcher_x)
   \<and> VSlice StmtSlice None \<noteq> VSlice StmtSlice (Some [])"
  by (simp add: isNil_def is_slice_def elems_def)


text \<open>
  What the code unwraps, skips and wraps is what the specification says, and a successful
  \<open>match\<close> of two host values is a structural match.
\<close>

lemma unwrap_l_transparent: "unwrap_l l = Some (Inr l') \<Longrightarrow> transparent l = Some l'"
  by (cases l) (auto simp: unwrap_l_def transparent_def get_field_def split: if_splits option.splits)

lemma unwrap_r_transparent: "unwrap_r r = Some (Inr r') \<Longrightarrow> transparent r = Some r'"
  by (cases r) (auto simp: unwrap_r_def transparent_def get_field_def split: if_splits option.splits)

lemma skipped_not_compared: "skipped_field v \<Longrightarrow> not_compared v"
  by (cases v) (auto simp: skipped_field_def not_compared_def)

lemma basic_plain: "field_kind v = KBasic \<Longrightarrow> plain_value v"
  by (cases v) (auto simp: field_kind_def plain_value_def)

lemma slice_kind: "field_kind v = KSlice \<Longrightarrow> \<exists>t xs. v = VSlice t xs"
  by (cases v) (auto simp: field_kind_def)

lemma slice_args_as_sequence:
  assumes "slice_args t l r = Some (Some a)" and "t \<noteq> OtherSlice"
  shows "as_sequence t l = Some (fst a) \<and> as_sequence t r = Some (snd a)"
proof -
  have sl: "as_sequence t v = Some (elems v)" if "is_slice_of t v" for v
    using that by (cases v) (auto simp: is_slice_of_def as_sequence_def elems_def split: option.splits)
  have el: "as_sequence t v = Some [v]" if "implements t v" for v
    using that assms(2)
    by (cases v; cases t) (auto simp: implements_def as_sequence_def is_ast_node_def type_name_def)
  from assms(1) consider "is_slice_of t l" "is_slice_of t r" "a = (elems l, elems r)"
    | "is_slice_of t l" "implements t r" "a = (elems l, [r])"
    | "is_slice_of t r" "implements t l" "a = ([l], elems r)"
    unfolding slice_args_def Let_def by (auto split: if_splits)
  then show ?thesis by cases (simp_all add: sl el)
qed


lemma match_v_unfold:
  "unwrap_l l = Some (Inr l') \<Longrightarrow> match_v ti l r = match_v ti l' r"
  "unwrap_l l = Some (Inl e) \<Longrightarrow> match_v ti l r = Inl e"
  "unwrap_l l = None \<Longrightarrow> unwrap_r r = Some (Inr r') \<Longrightarrow> match_v ti l r = match_v ti l r'"
  "unwrap_l l = None \<Longrightarrow> unwrap_r r = Some (Inl e) \<Longrightarrow> match_v ti l r = Inl e"
  by (subst match_v.simps, simp del: match_v.simps)+

lemma match_v_sound:
  "match_v ti l r = Inr (res, True) \<Longrightarrow> structurally_matches ti l r"
  "match_vs ti ls rs = Inr True \<Longrightarrow> length ls = length rs \<Longrightarrow> structurally_match_seq ti ls rs"
  "matchAST_fields ti fs gs = Inr True \<Longrightarrow> structurally_match_fields ti fs gs"
  "matchAST_elems ti xs ys = Inr True \<Longrightarrow> length xs = length ys \<Longrightarrow> structurally_match_seq ti xs ys"
proof (induct ti l r and ti ls rs and ti fs gs and ti xs ys arbitrary: res and and and
    rule: match_v_match_vs_matchAST_fields_matchAST_elems.induct)
  case (1 ti l r)
  note m = 1(7)
  show ?case
  proof (cases "unwrap_l l")
    case (Some x)
    show ?thesis
    proof (cases x)
      case (Inl e)
      with Some m match_v_unfold(2) [of l e ti r] show ?thesis by simp
    next
      case (Inr l')
      with Some m match_v_unfold(1) [of l l' ti r] have "match_v ti l' r = Inr (res, True)" by simp
      from 1(6) [OF Some Inr this] have "structurally_matches ti l' r" .
      with unwrap_l_transparent Some Inr show ?thesis by (auto intro: structurally_matches_structurally_match_seq_structurally_match_fields.transparent_left)
    qed
  next
    case None
    note ul = None
    show ?thesis
    proof (cases "unwrap_r r")
      case (Some x)
      show ?thesis
      proof (cases x)
        case (Inl e)
        with Some ul m match_v_unfold(4) [of l r e ti] show ?thesis by simp
      next
        case (Inr r')
        with Some ul m match_v_unfold(3) [of l r r' ti] have "match_v ti l r' = Inr (res, True)" by simp
        from 1(5) [OF ul Some Inr this] have "structurally_matches ti l r'" .
        with unwrap_r_transparent Some Inr show ?thesis by (auto intro: structurally_matches_structurally_match_seq_structurally_match_fields.transparent_right)
      qed
    next
      case None
      note ur = None
      note eq = match_v.simps [of ti l r]
      note [simp del] = match_v.simps match_vs.simps matchAST_fields.simps matchAST_elems.simps
      show ?thesis
      proof (cases "l = VNil \<or> r = VNil")
        case True
        with m eq ul ur have "l = VNil" "r = VNil" by auto
        then show ?thesis by (simp add: structurally_matches_structurally_match_seq_structurally_match_fields.both_null)
      next
        case False
        note nn = False
        show ?thesis
        proof (cases "is_ast_node l \<and> is_ast_node r")
          case True
          note nodes = True
          from m eq ul ur nn nodes have tn: "type_name l = type_name r" by (auto split: if_splits)
          show ?thesis
          proof (cases "node_fields l")
            case None
            with m eq ul ur nn nodes tn have "node_fields r = None" by (auto split: if_splits)
            with None nodes tn obtain k where "l = VNilNode k" "r = VNilNode k"
              by (cases l; cases r) (auto simp: node_fields_def is_ast_node_def type_name_def)
            then show ?thesis by (simp add: structurally_matches_structurally_match_seq_structurally_match_fields.null_pointers)
          next
            case (Some fs)
            with m eq ul ur nn nodes tn obtain gs where gs: "node_fields r = Some gs"
              by (cases "node_fields r") (auto split: if_splits)
            with Some m eq ul ur nn nodes tn have "matchAST_fields ti fs gs = Inr True"
              by (auto split: if_splits sum.splits)
            with 1(1) [OF ul ur nn nodes _ Some gs] tn have "structurally_match_fields ti fs gs" by simp
            moreover from Some gs tn obtain k where "l = VNode k fs" "r = VNode k gs"
              by (cases l; cases r) (auto simp: node_fields_def type_name_def)
            ultimately show ?thesis
              by (simp add: structurally_matches_structurally_match_seq_structurally_match_fields.same_kind)
          qed
        next
          case False
          note nonodes = False
          show ?thesis
          proof (cases "as_object l")
            case (Some obj)
            then have l: "l = VObject obj" by (cases l) (auto simp: as_object_def)
            from m eq ul ur nn nonodes Some obtain i x where
              "ti = Some i" "named_part r = Some x" "ObjectOf i x = Some obj"
              by (cases r; cases ti)
                (auto simp: named_part_def object_of_def get_field_def
                   split: if_splits sum.splits option.splits)
            then show ?thesis unfolding l
              by (rule structurally_matches_structurally_match_seq_structurally_match_fields.type_object)
          next
            case None
            note noobj = None
            have seqs: "structurally_matches ti l r"
              if a: "slice_args t l r = Some (Some a)" and t: "t \<noteq> OtherSlice"
                and mv: "match_vs ti (fst a) (snd a) = Inr True"
                and len: "length (fst a) = length (snd a)"
                and ih: "match_vs ti (fst a) (snd a) = Inr True \<Longrightarrow> length (fst a) = length (snd a)
                           \<Longrightarrow> structurally_match_seq ti (fst a) (snd a)"
              for t a
            proof -
              from ih [OF mv len] have "structurally_match_seq ti (fst a) (snd a)" .
              with slice_args_as_sequence [OF a t] show ?thesis
                by (auto intro: structurally_matches_structurally_match_seq_structurally_match_fields.sequences)
            qed
            show ?thesis
            proof (cases "slice_args ExprSlice l r")
              case (Some x)
              with m eq ul ur nn nonodes noobj obtain a where a: "x = Some a"
                and len: "length (fst a) = length (snd a)"
                and mv: "match_vs ti (fst a) (snd a) = Inr True"
                by (cases x) (auto split: if_splits sum.splits)
              from Some a have sa: "slice_args ExprSlice l r = Some (Some a)" by simp
              show ?thesis
                by (rule seqs [OF sa _ mv len]) (simp, rule 1(4) [OF ul ur nn nonodes noobj Some a], simp_all add: len)
            next
              case None
              note e = None
              show ?thesis
              proof (cases "slice_args StmtSlice l r")
                case (Some x)
                with m eq ul ur nn nonodes noobj e obtain a where a: "x = Some a"
                  and len: "length (fst a) = length (snd a)"
                  and mv: "match_vs ti (fst a) (snd a) = Inr True"
                  by (cases x) (auto split: if_splits sum.splits)
                from Some a have sa: "slice_args StmtSlice l r = Some (Some a)" by simp
                show ?thesis
                  by (rule seqs [OF sa _ mv len]) (simp, rule 1(3) [OF ul ur nn nonodes noobj e Some a], simp_all add: len)
              next
                case None
                note st = None
                show ?thesis
                proof (cases "slice_args FieldSlice l r")
                  case (Some x)
                  with m eq ul ur nn nonodes noobj e st obtain a where a: "x = Some a"
                    and len: "length (fst a) = length (snd a)"
                    and mv: "match_vs ti (fst a) (snd a) = Inr True"
                    by (cases x) (auto split: if_splits sum.splits)
                  from Some a have sa: "slice_args FieldSlice l r = Some (Some a)" by simp
                  show ?thesis
                    by (rule seqs [OF sa _ mv len]) (simp, rule 1(2) [OF ul ur nn nonodes noobj e st Some a], simp_all add: len)
                next
                  case None
                  with m eq ul ur nn nonodes noobj e st show ?thesis by auto
                qed
              qed
            qed
          qed
        qed
      qed
    qed
  qed
next
  case (2 ti ls rs)
  show ?case
  proof (cases ls)
    case Nil
    with 2(4) show ?thesis by (simp add: structurally_matches_structurally_match_seq_structurally_match_fields.seq_nil)
  next
    case (Cons x xs')
    with 2(4) obtain y ys' where rs: "rs = y # ys'" by (cases rs) auto
    from 2(3) Cons rs obtain b where b: "match_v ti x y = Inr b" "snd b"
      and rest: "match_vs ti xs' ys' = Inr True"
      by (subst (asm) match_vs.simps) (auto simp del: match_v.simps match_vs.simps split: sum.splits if_splits)
    from b have "match_v ti x y = Inr (fst b, True)" by (cases b) simp
    from 2(1) [OF Cons rs this] have "structurally_matches ti x y" .
    moreover from 2(2) [OF Cons rs b rest] 2(4) Cons rs have "structurally_match_seq ti xs' ys'" by simp
    ultimately show ?thesis using Cons rs
      by (simp add: structurally_matches_structurally_match_seq_structurally_match_fields.seq_cons)
  qed
next
  case (3 ti fs gs)
  note [simp del] = match_v.simps match_vs.simps matchAST_fields.simps matchAST_elems.simps
  note eq = matchAST_fields.simps [of ti fs gs]
  show ?case
  proof (cases fs)
    case Nil
    then show ?thesis by (simp add: structurally_matches_structurally_match_seq_structurally_match_fields.fields_nil)
  next
    case (Cons f fs')
    with 3(7) eq obtain g gs' where gs: "gs = g # gs'" by (cases gs) auto
    show ?thesis
    proof (cases "skipped_field (snd f)")
      case True
      with 3(7) eq Cons gs have "matchAST_fields ti fs' gs' = Inr True" by simp
      from 3(1) [OF Cons gs True this] skipped_not_compared [OF True] show ?thesis
        unfolding Cons gs by (simp add: structurally_matches_structurally_match_seq_structurally_match_fields.field_not_compared)
    next
      case False
      note ns = False
      show ?thesis
      proof (cases "field_kind (snd f)")
        case KSlice
        from 3(7) eq Cons gs ns KSlice have len: "length (elems (snd f)) = length (elems (snd g))"
          by (auto split: if_splits)
        with 3(7) eq Cons gs ns KSlice have el: "matchAST_elems ti (elems (snd f)) (elems (snd g)) = Inr True"
          and rest: "matchAST_fields ti fs' gs' = Inr True"
          by (auto split: if_splits sum.splits)
        from 3(2) [OF Cons gs ns KSlice _ el len] len
        have 1: "structurally_match_seq ti (elems (snd f)) (elems (snd g))" by simp
        from 3(3) [OF Cons gs ns KSlice _ el _ rest] len
        have 2: "structurally_match_fields ti fs' gs'" by simp
        from slice_kind [OF KSlice] obtain t xs where "snd f = VSlice t xs" by blast
        from structurally_matches_structurally_match_seq_structurally_match_fields.field_slice [OF this len 1 2]
        show ?thesis unfolding Cons gs .
      next
        case KBasic
        with 3(7) eq Cons gs ns have e: "snd f = snd g"
          and rest: "matchAST_fields ti fs' gs' = Inr True"
          by (auto split: if_splits)
        from 3(4) [OF Cons gs ns KBasic _ rest] e have "structurally_match_fields ti fs' gs'" by simp
        from structurally_matches_structurally_match_seq_structurally_match_fields.field_plain [OF basic_plain [OF KBasic] e this]
        show ?thesis unfolding Cons gs .
      next
        case KPointer
        with 3(7) eq Cons gs ns obtain b where b: "match_v ti (snd f) (snd g) = Inr b" "snd b"
          and rest: "matchAST_fields ti fs' gs' = Inr True"
          by (auto split: if_splits sum.splits)
        from b have "match_v ti (snd f) (snd g) = Inr (fst b, True)" by (cases b) simp
        from 3(5) [OF Cons gs ns KPointer this] have 1: "structurally_matches ti (snd f) (snd g)" .
        from 3(6) [OF Cons gs ns KPointer b rest] have 2: "structurally_match_fields ti fs' gs'" .
        from structurally_matches_structurally_match_seq_structurally_match_fields.field_node [OF 1 2]
        show ?thesis unfolding Cons gs .
      next
        case KUnhandled
        with 3(7) eq Cons gs ns show ?thesis by simp
      qed
    qed
  qed
next
  case (4 ti xs ys)
  show ?case
  proof (cases xs)
    case Nil
    with 4(4) show ?thesis by (simp add: structurally_matches_structurally_match_seq_structurally_match_fields.seq_nil)
  next
    case (Cons x xs')
    with 4(4) obtain y ys' where ys: "ys = y # ys'" by (cases ys) auto
    from 4(3) Cons ys obtain b where n: "\<not> (\<not> is_ast_node x \<or> \<not> is_ast_node y)"
      and b: "match_v ti x y = Inr b" "snd b"
      and rest: "matchAST_elems ti xs' ys' = Inr True"
      by (subst (asm) matchAST_elems.simps)
        (auto simp del: match_v.simps matchAST_elems.simps split: sum.splits if_splits)
    from b have "match_v ti x y = Inr (fst b, True)" by (cases b) simp
    from 4(1) [OF Cons ys n this] have "structurally_matches ti x y" .
    moreover from 4(2) [OF Cons ys n b rest] 4(4) Cons ys have "structurally_match_seq ti xs' ys'" by simp
    ultimately show ?thesis using Cons ys
      by (simp add: structurally_matches_structurally_match_seq_structurally_match_fields.seq_cons)
  qed
qed

lemma transparent_none:
  "transparent ident_f = None" "transparent ident_g = None"
  "transparent (VString s) = None" "transparent (VPos p) = None"
  by (simp_all add: transparent_def ident_f_def ident_g_def)

lemma as_sequence_ident:
  "as_sequence t ident_f = (if t = ExprSlice then Some [ident_f] else None)"
  "as_sequence t ident_g = (if t = ExprSlice then Some [ident_g] else None)"
  "as_sequence t (VString s) = None" "as_sequence t (VPos p) = None"
  by (cases t; simp add: as_sequence_def ident_f_def ident_g_def expr_types_def stmt_types_def)+

text \<open>The relation tells identifiers of different names apart.\<close>

lemma structurally_matches_idents:
  "structurally_matches ti l r \<Longrightarrow>
     (\<forall>s. l \<noteq> VString s) \<and> (\<forall>p. l \<noteq> VPos p) \<and> \<not> (l = ident_f \<and> r = ident_g)"
  "structurally_match_seq ti xs ys \<Longrightarrow> \<not> (xs = [ident_f] \<and> ys = [ident_g])"
  "structurally_match_fields ti fs gs \<Longrightarrow>
     \<not> (fs = [(''NamePos'', VPos 1), (''Name'', VString ''f''), (''Obj'', VScopeObject)]
        \<and> gs = [(''NamePos'', VPos 9), (''Name'', VString ''g''), (''Obj'', VScopeObject)])
     \<and> \<not> (fs = [(''Name'', VString ''f''), (''Obj'', VScopeObject)]
        \<and> gs = [(''Name'', VString ''g''), (''Obj'', VScopeObject)])"
proof (induct rule: structurally_matches_structurally_match_seq_structurally_match_fields.inducts)
  case (transparent_left l l' r)
  then show ?case using transparent_none by auto
next
  case (transparent_right r r' l)
  then show ?case using transparent_none by auto
next
  case both_null
  show ?case by (simp add: ident_f_def)
next
  case (null_pointers k)
  show ?case by (simp add: ident_f_def)
next
  case (type_object i r x obj)
  show ?case by (simp add: ident_f_def)
next
  case (sequences t l xs r ys)
  then show ?case using as_sequence_ident [of t] by (auto split: if_splits)
next
  case (same_kind fs gs k)
  then show ?case by (simp add: ident_f_def ident_g_def)
next
  case seq_nil
  show ?case by simp
next
  case (seq_cons x y xs ys)
  then show ?case by blast
next
  case (fields_nil gs)
  show ?case by simp
next
  case (field_not_compared f fs gs g)
  then show ?case by (cases f) (auto simp: not_compared_def)
next
  case (field_plain f g fs gs)
  then show ?case by (cases f; cases g) (auto simp: plain_value_def)
next
  case (field_slice f t xs g fs gs)
  then show ?case by (cases f) auto
next
  case (field_node f g fs gs)
  then show ?case by (cases f) auto
qed

text \<open>
  C8. \<open>Binding{name, sub}\<close>. On first use (the name is not bound) it evaluates \<open>sub\<close>
  (anything, when \<open>sub\<close> is nil) against the node, returns that result, and on success
  the name is bound to the value the sub-match returned. On later use with a nil \<open>sub\<close>
  the result is that of \<open>match\<close> with the bound value on the left, the matcher does not
  change, and it succeeds only if the node structurally matches the bound value, in the
  sense of the specification. With a non-nil \<open>sub\<close> and the name already bound, it
  panics.
\<close>

theorem Binding_Match_spec:
  "(State m name = None \<longrightarrow> match m (if isNil sub then Some Any else sub) node = Inr ((v, ok), m1) \<longrightarrow>
      setBindings m1 \<noteq> [] \<longrightarrow>
      (\<exists>m2. Binding_Match m name idx sub node = Inr ((v, ok), m2) \<and>
            State m2 = (if ok then (State m1)(name := Some v) else State m1)))
   \<and> (isNil sub \<longrightarrow> State m name = Some b \<longrightarrow>
        Binding_Match m name idx sub node =
          (case match_v (TypesInfo m) b node of Inl e \<Rightarrow> Inl e | Inr res \<Rightarrow> Inr (res, m)))
   \<and> (isNil sub \<longrightarrow> State m name = Some b \<longrightarrow>
        Binding_Match m name idx sub node = Inr ((v', True), m') \<longrightarrow>
        m' = m \<and> structurally_matches (TypesInfo m) b node)
   \<and> (\<not> isNil sub \<longrightarrow> State m name \<noteq> None \<longrightarrow>
        Binding_Match m name idx sub node = Inl (BindingAlreadyCreated name))"
proof -
  have recall: "Binding_Match m name idx sub node =
          (case match_v (TypesInfo m) b node of Inl e \<Rightarrow> Inl e | Inr res \<Rightarrow> Inr (res, m))"
    if "isNil sub" "State m name = Some b"
    using that by (simp del: match_v.simps)
  have sound: "m' = m \<and> structurally_matches (TypesInfo m) b node"
    if "isNil sub" "State m name = Some b"
      "Binding_Match m name idx sub node = Inr ((v', True), m')"
  proof -
    from recall [OF that(1,2)] that(3)
    have "match_v (TypesInfo m) b node = Inr (v', True) \<and> m' = m"
      by (cases "match_v (TypesInfo m) b node") (simp_all del: match_v.simps)
    with match_v_sound(1) show ?thesis by blast
  qed
  have first: "\<exists>m2. Binding_Match m name idx sub node = Inr ((v, ok), m2) \<and>
            State m2 = (if ok then (State m1)(name := Some v) else State m1)"
    if "State m name = None"
      "match m (if isNil sub then Some Any else sub) node = Inr ((v, ok), m1)"
      "setBindings m1 \<noteq> []"
    using that by (auto simp: set_binding_def Let_def)
  have abort: "Binding_Match m name idx sub node = Inl (BindingAlreadyCreated name)"
    if "\<not> isNil sub" "State m name \<noteq> None"
    using that by (auto simp: set_binding_def Let_def)
  from recall sound first abort show ?thesis by blast
qed

theorem Binding_Match_spec_witness:
  "(\<exists>m2. Binding_Match matcher_x ''x'' 0 None ident_f = Inr ((ident_f, True), m2) \<and>
         State m2 = (State matcher_x)(''x'' := Some ident_f))
   \<and> Binding_Match (matcher_x\<lparr>State := (\<lambda>k. if k = ''x'' then Some ident_f else None)\<rparr>) ''x'' 0 None ident_f =
       Inr ((ident_f, True), matcher_x\<lparr>State := (\<lambda>k. if k = ''x'' then Some ident_f else None)\<rparr>)
   \<and> structurally_matches None ident_f ident_f
   \<and> Binding_Match (matcher_x\<lparr>State := (\<lambda>k. if k = ''x'' then Some ident_f else None)\<rparr>) ''x'' 0 None ident_g =
       Inr ((VNil, False), matcher_x\<lparr>State := (\<lambda>k. if k = ''x'' then Some ident_f else None)\<rparr>)
   \<and> \<not> structurally_matches None ident_f ident_g
   \<and> Binding_Match (matcher_x\<lparr>State := (\<lambda>k. if k = ''x'' then Some ident_f else None)\<rparr>) ''x'' 0 (Some Any) ident_f =
       Inl (BindingAlreadyCreated ''x'')"
proof -
  let ?mx = "matcher_x\<lparr>State := (\<lambda>k. if k = ''x'' then Some ident_f else None)\<rparr>"
  have a: "match matcher_x (if isNil None then Some Any else None) ident_f = Inr ((ident_f, True), matcher_x)"
    by (simp add: matcher_ops ident_f_def)
  have b: "match_v (TypesInfo ?mx) ident_f ident_f = Inr (ident_f, True)"
    by (simp add: matcher_ops ident_f_def skipped_field_def field_kind_def matcher_x_def)
  have c: "Binding_Match ?mx ''x'' 0 None ident_f = Inr ((ident_f, True), ?mx)"
    using b by (simp add: isNil_def)
  have d: "Binding_Match ?mx ''x'' 0 None ident_g = Inr ((VNil, False), ?mx)"
    by (simp add: matcher_ops ident_f_def ident_g_def skipped_field_def field_kind_def matcher_x_def)
  have e: "\<not> structurally_matches None ident_f ident_g"
    using structurally_matches_idents(1) [of None ident_f ident_g] by blast
  show ?thesis
    using Binding_Match_spec [where m = matcher_x and name = "''x''" and sub = None
        and node = ident_f and v = ident_f and ok = True and ?m1.0 = matcher_x and idx = 0
        and b = ident_f and v' = ident_f and m' = matcher_x]
      Binding_Match_spec [where m = ?mx and name = "''x''" and sub = None
        and node = ident_f and v = ident_f and ok = True and ?m1.0 = matcher_x and idx = 0
        and b = ident_f and v' = ident_f and m' = ?mx]
      Binding_Match_spec [where m = ?mx and name = "''x''" and sub = "Some Any"
        and node = ident_f and v = ident_f and ok = True and ?m1.0 = matcher_x and idx = 0
        and b = ident_f and v' = ident_f and m' = ?mx]
      a c d e
    by (simp add: isNil_def matcher_x_def)
qed


text \<open>
  C1 at a failing input. \<open>Not.Match\<close> returns the negation of its child's result, but it has
  no \<open>push\<close> and \<open>pop\<close>: the matcher it leaves is the one its child left. Matching
  \<open>(Not (CallExpr x@_ []))\<close> against the call \<open>f(1)\<close> succeeds (the child binds \<open>x\<close> to
  \<open>f\<close>, then fails on the arguments), and \<open>x\<close> is bound afterwards.
\<close>

theorem Not_Match_keeps_child_bindings:
  "Match not_call_pattern call_f_1 =
     Inr (True, \<lparr>TypesInfo = None, State = (\<lambda>k. None)(''x'' := Some ident_f),
                 bindingsMapping = [''x''], setBindings = []\<rparr>)"
  by (simp add: Match_def Matcher_Match_def not_call_pattern_def call_f_1_def ident_f_def matcher_ops Let_def)

text \<open>
  C3 at a failing input. \<open>merge\<close> drops the frame of a successful alternative without
  recording its names in the enclosing frame, so the \<open>pop\<close> of an enclosing alternative
  that fails later does not remove them. Matching \<open>(Or (CallExpr (Or x@_) []) _)\<close> against
  the call \<open>f(1)\<close>: the first alternative binds \<open>x\<close> to \<open>f\<close> and then fails on the
  arguments, the second alternative matches, and \<open>x\<close> is still bound.
\<close>

theorem Or_Match_keeps_failed_binding:
  "Match or_call_pattern call_f_1 =
     Inr (True, \<lparr>TypesInfo = None, State = (\<lambda>k. None)(''x'' := Some ident_f),
                 bindingsMapping = [''x''], setBindings = []\<rparr>)"
  by (simp add: Match_def Matcher_Match_def or_call_pattern_def call_f_1_def ident_f_def matcher_ops Let_def)

text \<open>
  C5 at a failing input. With \<open>type A = B; type B = C; type C int\<close>, \<open>Symbol.Match\<close> on an
  identifier that denotes \<open>A\<close> tries the name of \<open>A\<close> and then the name of
  \<open>types.Unalias\<close> of its type, which is \<open>C\<close>: the name of the alias \<open>B\<close> in between is
  never tried.
\<close>

theorem Symbol_Match_skips_alias_layer:
  "Symbol_Match matcher_A (Some (String ''pkg.A'')) ident_A = Inr ((VObject (OTypeName typename_A), True), matcher_A)
   \<and> Symbol_Match matcher_A (Some (String ''pkg.C'')) ident_A = Inr ((VObject (OTypeName typename_A), True), matcher_A)
   \<and> Symbol_Match matcher_A (Some (String ''pkg.B'')) ident_A = Inr ((VObject (OTypeName typename_A), False), matcher_A)"
  by (simp add: matcher_A_def ident_A_def typename_A_def typename_C_def symbol_pattern_def
      symbol_base_def symbol_object_def implements_def expr_types_def is_ident_def object_of_def
      as_typename_def matcher_ops Let_def)


section \<open>Properties of the reachability closure\<close>

lemma numMask_mask: "numMask = mask 20"
  by (simp add: numMask_def numBits_def mask_eq_exp_minus_1 push_bit_eq_mult)

lemma lengthMask_mask: "lengthMask = push_bit 20 (mask 11)"
  by (simp add: lengthMask_def numBits_def lengthBits_def mask_eq_exp_minus_1 push_bit_eq_mult)

lemma bit_flagMask: "bit flagMask n \<longleftrightarrow> n = 31"
proof -
  have "flagMask = 2 ^ 31" by (simp add: flagMask_def)
  then have "bit flagMask n \<longleftrightarrow> bit (2 ^ 31 :: 32 word) n" by simp
  also have "\<dots> \<longleftrightarrow> n = 31" by (simp only: bit_exp_iff) auto
  finally show ?thesis .
qed

lemma bit_lt: 
  fixes s :: "32 word"
  assumes "s < 2^k" shows "\<forall>n. bit s n \<longrightarrow> n < k"
proof (intro allI impI, rule ccontr)
  fix n assume b: "bit s n" and "\<not> n < k"
  from assms(1) have "take_bit k s = s"
    by (metis less_mask_eq take_bit_eq_mask)
  then have "bit s n = bit (take_bit k s) n" by simp
  also have "\<dots> = (n < k \<and> bit s n)" by (simp add: bit_take_bit_iff)
  finally show False using b \<open>\<not> n < k\<close> by simp
qed

lemma small_decode1:
  fixes s l :: "32 word"
  assumes "s < 2^20" "l < 2^11"
  shows "(push_bit 20 l OR s) AND flagMask = 0"
  apply (rule bit_eqI)
  using bit_lt[OF assms(1)] bit_lt[OF assms(2)]
  apply (auto simp add: bit_flagMask bit_simps)
  done

lemma small_decode2:
  fixes s l :: "32 word"
  assumes "s < 2^20" "l < 2^11"
  shows "(push_bit 20 l OR s) AND numMask = s"
  apply (rule bit_eqI)
  using bit_lt[OF assms(1)] bit_lt[OF assms(2)]
  apply (auto simp add: numMask_mask bit_simps)
  done

lemma small_decode3:
  fixes s l :: "32 word"
  assumes "s < 2^20" "l < 2^11"
  shows "drop_bit 20 ((push_bit 20 l OR s) AND lengthMask) = l"
  apply (rule bit_eqI)
  using bit_lt[OF assms(1)] bit_lt[OF assms(2)]
  apply (auto simp add: lengthMask_mask bit_simps)
  done

lemma large_decode:
  fixes s :: "32 word"
  assumes "s < 2^20"
  shows "(flagMask OR s) AND flagMask \<noteq> 0" "(flagMask OR s) AND numMask = s"
proof -
  have "bit ((flagMask OR s) AND flagMask) 31"
    by (simp add: bit_flagMask bit_simps)
  then show "(flagMask OR s) AND flagMask \<noteq> 0" by auto
  show "(flagMask OR s) AND numMask = s"
    apply (rule bit_eqI)
    using bit_lt[OF assms(1)]
    apply (auto simp add: numMask_mask bit_simps bit_flagMask)
    done
qed

lemma unat_of_nat32: "n < 2^32 \<Longrightarrow> unat (word_of_nat n :: 32 word) = n"
  by (simp add: unat_of_nat)

lemma of_nat_le_iff32:
  "a < 2^32 \<Longrightarrow> b < 2^32 \<Longrightarrow> (word_of_nat a :: 32 word) \<le> word_of_nat b \<longleftrightarrow> a \<le> b"
  by (simp add: word_le_nat_alt unat_of_nat)

lemma of_nat_lt_20: "a < 2^20 \<Longrightarrow> (word_of_nat a :: 32 word) < 2^20"
  by (simp add: word_less_nat_alt unat_of_nat)

lemma of_nat_lt_11: "a < 2^11 \<Longrightarrow> (word_of_nat a :: 32 word) < 2^11"
  by (simp add: word_less_nat_alt unat_of_nat)

lemma has_loop_small:
  "iv AND flagMask = 0 \<Longrightarrow>
   has_loop (iv # r) idx = (if small_has iv idx then Some True else has_loop r idx)"
  by (simp add: small_has_def Let_def)

lemma has_loop_large:
  "iv AND flagMask \<noteq> 0 \<Longrightarrow>
   has_loop (iv # e # r) idx = (if large_has iv e idx then Some True else has_loop r idx)"
  by (simp add: large_has_def Let_def)

lemma has_loop_append:
  "wf_ivs xs \<Longrightarrow>
   has_loop (xs @ ys) idx = (if has_loop xs idx = Some True then Some True else has_loop ys idx)
   \<and> has_loop xs idx \<noteq> None"
proof (induction xs rule: wf_ivs.induct)
  case 1
  then show ?case by simp
next
  case (2 iv r)
  show ?case
  proof (cases "iv AND flagMask = 0")
    case True
    with 2(3) have "wf_ivs r" by simp
    note IH = 2(1) [OF True this]
    have eq1: "has_loop ((iv # r) @ ys) idx = (if small_has iv idx then Some True else has_loop (r @ ys) idx)"
      by (simp only: append_Cons has_loop_small [OF True])
    have eq2: "has_loop (iv # r) idx = (if small_has iv idx then Some True else has_loop r idx)"
      by (rule has_loop_small [OF True])
    show ?thesis unfolding eq1 eq2 using IH by (cases "small_has iv idx") simp_all
  next
    case False
    with 2(3) obtain e r' where r: "r = e # r'" and w: "wf_ivs r'"
      by (cases r) auto
    note IH = 2(2) [OF False r w]
    have eq1: "has_loop ((iv # r) @ ys) idx = (if large_has iv e idx then Some True else has_loop (r' @ ys) idx)"
      unfolding r by (simp only: append_Cons has_loop_large [OF False])
    have eq2: "has_loop (iv # r) idx = (if large_has iv e idx then Some True else has_loop r' idx)"
      unfolding r by (rule has_loop_large [OF False])
    show ?thesis unfolding eq1 eq2 using IH by (cases "large_has iv e idx") simp_all
  qed
qed

lemma wf_ivs_append: "wf_ivs xs \<Longrightarrow> wf_ivs ys \<Longrightarrow> wf_ivs (xs @ ys)"
proof (induction xs rule: wf_ivs.induct)
  case 1
  then show ?case by simp
next
  case (2 iv r)
  show ?case
  proof (cases "iv AND flagMask = 0")
    case True
    with 2 show ?thesis by simp
  next
    case False
    with 2(3) obtain e r' where r: "r = e # r'" and w: "wf_ivs r'"
      by (cases r) auto
    from 2(2) [OF False r w 2(4)] False show ?thesis unfolding r by simp
  qed
qed

lemma addInterval_append: "addInterval s e rs = rs @ addInterval s e []"
  by (simp add: addInterval_def Let_def)

lemma lengthBits_bound: "(push_bit lengthBits 1 - 1 :: 32 word) = 2047"
  by (simp add: lengthBits_def numBits_def)

lemma addInterval_cases:
  assumes "s \<le> e" "e < 2^20"
  shows "addInterval (word_of_nat s) (word_of_nat e) [] =
     (if e - s \<le> 2047 then [push_bit 20 (word_of_nat (e - s)) OR word_of_nat s]
      else [flagMask OR word_of_nat s, word_of_nat e])"
proof -
  have l: "(word_of_nat e :: 32 word) - word_of_nat s = word_of_nat (e - s)"
    using assms by simp
  have "e - s < 2^32" using assms by simp
  then have cmp: "((word_of_nat (e - s) :: 32 word) \<le> 2047) = (e - s \<le> 2047)"
    by (simp add: word_le_nat_alt unat_of_nat)
  show ?thesis
    unfolding addInterval_def l Let_def lengthBits_bound cmp numBits_def flagMask_def by simp
qed

lemma addInterval_decode:
  assumes "s \<le> e" "e < 2^20" "j < 2^20"
  shows "wf_ivs (addInterval (word_of_nat s) (word_of_nat e) [])"
    and "has_loop (addInterval (word_of_nat s) (word_of_nat e) []) (word_of_nat j) = Some (s \<le> j \<and> j \<le> e)"
proof -
  let ?s = "word_of_nat s :: 32 word" and ?e = "word_of_nat e :: 32 word"
  let ?l = "word_of_nat (e - s) :: 32 word" and ?j = "word_of_nat j :: 32 word"
  have s20: "?s < 2^20" using assms by (intro of_nat_lt_20) simp
  have b: "s < 2^32" "e < 2^32" "j < 2^32" using assms by simp_all
  have sj: "(?s \<le> ?j) = (s \<le> j)" using b by (simp add: of_nat_le_iff32)
  have je: "(?j \<le> ?e) = (j \<le> e)" using b by (simp add: of_nat_le_iff32)
  have se: "?s + ?l = ?e" using assms by simp
  show "wf_ivs (addInterval ?s ?e [])"
  proof (cases "e - s \<le> 2047")
    case True
    then have "?l < 2^11" by (intro of_nat_lt_11) simp
    from small_decode1 [OF s20 this] True show ?thesis
      by (simp add: addInterval_cases [OF assms(1,2)])
  next
    case False
    with large_decode(1) [OF s20] show ?thesis
      by (simp add: addInterval_cases [OF assms(1,2)])
  qed
  show "has_loop (addInterval ?s ?e []) ?j = Some (s \<le> j \<and> j \<le> e)"
  proof (cases "e - s \<le> 2047")
    case True
    then have l11: "?l < 2^11" by (intro of_nat_lt_11) simp
    have "small_has (push_bit 20 ?l OR ?s) ?j = (s \<le> j \<and> j \<le> e)"
      unfolding small_has_def numBits_def
        small_decode2 [OF s20 l11] small_decode3 [OF s20 l11] se sj je ..
    moreover have "has_loop [push_bit 20 ?l OR ?s] ?j =
        (if small_has (push_bit 20 ?l OR ?s) ?j then Some True else has_loop [] ?j)"
      by (rule has_loop_small [OF small_decode1 [OF s20 l11]])
    moreover have "addInterval ?s ?e [] = [push_bit 20 ?l OR ?s]"
      using True by (simp add: addInterval_cases [OF assms(1,2)])
    ultimately show ?thesis by simp
  next
    case False
    have "large_has (flagMask OR ?s) ?e ?j = (s \<le> j \<and> j \<le> e)"
      unfolding large_has_def large_decode(2) [OF s20] sj je ..
    moreover have "has_loop [flagMask OR ?s, ?e] ?j =
        (if large_has (flagMask OR ?s) ?e ?j then Some True else has_loop [] ?j)"
      by (rule has_loop_large [OF large_decode(1) [OF s20]])
    moreover have "addInterval ?s ?e [] = [flagMask OR ?s, ?e]"
      using False by (simp add: addInterval_cases [OF assms(1,2)])
    ultimately show ?thesis by simp
  qed
qed

lemma dec_ok_cong: "dec_ok rs P \<Longrightarrow> (\<And>j. j < 2^20 \<Longrightarrow> P j = Q j) \<Longrightarrow> dec_ok rs Q"
  by (simp add: dec_ok_def)

lemma dec_ok_add:
  assumes "dec_ok rs P" "s \<le> e" "e < 2^20"
  shows "dec_ok (addInterval (word_of_nat s) (word_of_nat e) rs) (\<lambda>j. P j \<or> (s \<le> j \<and> j \<le> e))"
proof -
  let ?E = "addInterval (word_of_nat s) (word_of_nat e) []"
  have eq: "addInterval (word_of_nat s) (word_of_nat e) rs = rs @ ?E"
    by (rule addInterval_append)
  from assms(1) have w: "wf_ivs rs" by (simp add: dec_ok_def)
  have wE: "wf_ivs ?E" using assms(2,3) by (intro addInterval_decode(1)) simp_all
  have "has_loop (rs @ ?E) (word_of_nat j) = Some (P j \<or> (s \<le> j \<and> j \<le> e))" if j: "j < 2^20" for j
  proof -
    from assms(1) j have a: "has_loop rs (word_of_nat j) = Some (P j)" by (simp add: dec_ok_def)
    have b: "has_loop ?E (word_of_nat j) = Some (s \<le> j \<and> j \<le> e)"
      using assms(2,3) j by (intro addInterval_decode(2)) simp_all
    from has_loop_append [OF w, of ?E "word_of_nat j"] a b show ?thesis by auto
  qed
  with wf_ivs_append [OF w wE] show ?thesis unfolding eq dec_ok_def by simp
qed

lemma add_intervals_finish: "add_intervals reach rs = finish (scan reach 0 (- 1) rs) (length reach)"
  by (simp add: add_intervals_def finish_def)

lemma of_nat_neq_minus1: "s < 2^20 \<Longrightarrow> (word_of_nat s :: 32 word) \<noteq> - 1"
proof
  assume s: "s < 2^20" and eq: "(word_of_nat s :: 32 word) = - 1"
  have "s = unat (word_of_nat s :: 32 word)" using s by (simp add: unat_of_nat)
  also have "\<dots> = unat (- 1 :: 32 word)" using eq by simp
  also have "\<dots> = 4294967295" by (simp add: unsigned_minus_1_eq_mask mask_eq_exp_minus_1)
  finally show False using s by simp
qed

lemma of_nat_pred: "0 < n \<Longrightarrow> (word_of_nat n :: 32 word) - 1 = word_of_nat (n - 1)"
  by (cases n) simp_all

lemma scan_inv:
  assumes "length p + length bs \<le> 2^20"
    and "start = - 1 \<Longrightarrow> dec_ok acc (\<lambda>j. j < length p \<and> p ! j)"
    and "start \<noteq> - 1 \<Longrightarrow> \<exists>s<length p. start = word_of_nat s \<and> (\<forall>j. s \<le> j \<and> j < length p \<longrightarrow> p ! j)
           \<and> dec_ok acc (\<lambda>j. j < s \<and> p ! j)"
  shows "dec_ok (finish (scan bs (length p) start acc) (length p + length bs))
           (\<lambda>j. j < length (p @ bs) \<and> (p @ bs) ! j)"
  using assms
proof (induction bs arbitrary: p start acc)
  case Nil
  show ?case
  proof (cases "start = - 1")
    case True
    with Nil(2) show ?thesis by (simp add: finish_def)
  next
    case False
    from Nil(3) [OF False] obtain s where s: "s < length p" "start = word_of_nat s"
      "\<forall>j. s \<le> j \<and> j < length p \<longrightarrow> p ! j" "dec_ok acc (\<lambda>j. j < s \<and> p ! j)" by blast
    have e: "(word_of_nat (length p) :: 32 word) - 1 = word_of_nat (length p - 1)"
      using s(1) by (intro of_nat_pred) auto
    have "dec_ok (addInterval (word_of_nat s) (word_of_nat (length p - 1)) acc)
            (\<lambda>j. (j < s \<and> p ! j) \<or> (s \<le> j \<and> j \<le> length p - 1))"
      using s(1) Nil(1) by (intro dec_ok_add [OF s(4)]) simp_all
    then have "dec_ok (addInterval (word_of_nat s) (word_of_nat (length p - 1)) acc)
            (\<lambda>j. j < length p \<and> p ! j)"
      by (rule dec_ok_cong) (use s(1,3) in auto)
    with False s(2) e show ?thesis by (simp add: finish_def)
  qed
next
  case (Cons b bs)
  let ?p = "p @ [b]"
  have len: "length ?p + length bs \<le> 2^20" using Cons.prems(1) by simp
  have lp: "length p < 2^20" using Cons.prems(1) by simp
  have fin: "finish (scan (b # bs) (length p) start acc) (length p + length (b # bs))
      = finish (scan bs (length ?p) (if \<not> b then - 1 else if start = - 1 then word_of_nat (length p) else start)
          (if \<not> b \<and> start \<noteq> - 1 then addInterval start (word_of_nat (length p) - 1) acc else acc))
          (length ?p + length bs)"
    by simp
  have goal_eq: "(\<lambda>j. j < length (p @ b # bs) \<and> (p @ b # bs) ! j) = (\<lambda>j. j < length (?p @ bs) \<and> (?p @ bs) ! j)"
    by simp
  show ?case unfolding fin goal_eq
  proof (rule Cons.IH [OF len], goal_cases)
    case 1
    then have nb: "\<not> b"
      using of_nat_neq_minus1 [OF lp] by (auto split: if_splits)
    show ?case
    proof (cases "start = - 1")
      case True
      from Cons.prems(2) [OF True] have "dec_ok acc (\<lambda>j. j < length ?p \<and> ?p ! j)"
        by (rule dec_ok_cong) (use nb in \<open>auto simp: nth_append less_Suc_eq\<close>)
      with True nb show ?thesis by simp
    next
      case False
      from Cons.prems(3) [OF False] obtain s where s: "s < length p" "start = word_of_nat s"
        "\<forall>j. s \<le> j \<and> j < length p \<longrightarrow> p ! j" "dec_ok acc (\<lambda>j. j < s \<and> p ! j)" by blast
      have e: "(word_of_nat (length p) :: 32 word) - 1 = word_of_nat (length p - 1)"
        using s(1) by (intro of_nat_pred) auto
      have "dec_ok (addInterval (word_of_nat s) (word_of_nat (length p - 1)) acc)
              (\<lambda>j. (j < s \<and> p ! j) \<or> (s \<le> j \<and> j \<le> length p - 1))"
        using s(1) lp by (intro dec_ok_add [OF s(4)]) simp_all
      then have "dec_ok (addInterval (word_of_nat s) (word_of_nat (length p - 1)) acc)
              (\<lambda>j. j < length ?p \<and> ?p ! j)"
        by (rule dec_ok_cong) (use s(1,3) nb in \<open>auto simp: nth_append less_Suc_eq\<close>)
      with False nb s(2) e show ?thesis by simp
    qed
  next
    case 2
    then have b: b by (auto split: if_splits)
    show ?case
    proof (cases "start = - 1")
      case True
      from Cons.prems(2) [OF True] have "dec_ok acc (\<lambda>j. j < length p \<and> ?p ! j)"
        by (rule dec_ok_cong) (auto simp: nth_append)
      with True b show ?thesis
        by (intro exI [of _ "length p"]) (simp add: nth_append)
    next
      case False
      from Cons.prems(3) [OF False] obtain s where s: "s < length p" "start = word_of_nat s"
        "\<forall>j. s \<le> j \<and> j < length p \<longrightarrow> p ! j" "dec_ok acc (\<lambda>j. j < s \<and> p ! j)" by blast
      from s(4) have "dec_ok acc (\<lambda>j. j < s \<and> ?p ! j)"
        by (rule dec_ok_cong) (use s(1) in \<open>auto simp: nth_append\<close>)
      with False b s(1,2,3) show ?thesis
        by (intro exI [of _ s]) (auto simp: nth_append less_Suc_eq)
    qed
  qed
qed

lemma add_intervals_dec:
  assumes "length reach \<le> 2^20"
  shows "dec_ok (add_intervals reach []) (\<lambda>j. j < length reach \<and> reach ! j)"
proof -
  have "dec_ok [] (\<lambda>j. j < length ([]::bool list) \<and> [] ! j)" by (simp add: dec_ok_def)
  from scan_inv [of "[]" reach "- 1" "[]"] assms this show ?thesis
    by (simp add: add_intervals_finish)
qed

lemma scan_append:
  "scan bs i start (rs @ acc) = (case scan bs i start acc of (st, r) \<Rightarrow> (st, rs @ r))"
  by (induction bs arbitrary: i start acc) (simp_all add: addInterval_def Let_def)

lemma add_intervals_append: "add_intervals reach rs = rs @ add_intervals reach []"
  using scan_append [of reach 0 "- 1" rs "[]"]
  by (simp add: add_intervals_def addInterval_def Let_def split: prod.splits)

lemma walk_length:
  "walk blocks b visited = Some v' \<Longrightarrow> length v' = length visited"
  "walk_succs blocks succs visited = Some v'' \<Longrightarrow> length v'' = length visited"
proof (induct blocks b visited and blocks succs visited arbitrary: v' and v'' rule: walk_walk_succs.induct)
  case (1 blocks b visited)
  then show ?case by (auto split: if_splits)
next
  case (2 blocks visited)
  then show ?case by simp
next
  case (3 blocks succ rest visited)
  from 3(4) have c: "succ < length visited" by (auto split: if_splits)
  show ?case
  proof (cases "visited ! succ")
    case True
    with 3(4) c have "walk_succs blocks rest visited = Some v''" by simp
    from 3(1) [OF _ True this] c show ?thesis by simp
  next
    case False
    with 3(4) c obtain w where w: "walk blocks succ (visited[succ := True]) = Some w"
      and r: "walk_succs blocks rest w = Some v''"
      by (auto split: option.splits)
    from 3(2) [OF _ False w] c have "length w = length visited" by simp
    moreover from 3(3) [OF _ False w r] c have "length v'' = length w" by simp
    ultimately show ?thesis by simp
  qed
qed

lemma tc_loop_upt:
  assumes "tc_loop blocks [a..<n] c = Some c'"
  shows "reachables c' = reachables c @ concat (map (ivs_of blocks) [a..<n])
     \<and> length (span c') = length (span c)
     \<and> (\<forall>j\<le>a. span c' ! j = span c ! j)
     \<and> (\<forall>b. a \<le> b \<and> b < n \<longrightarrow>
          span c' ! Suc b = word_of_nat (length (reachables c @ concat (map (ivs_of blocks) [a..<Suc b]))))
     \<and> (\<forall>b. a \<le> b \<and> b < n \<longrightarrow> walk blocks b (replicate (length blocks) False) \<noteq> None)
     \<and> (a < n \<longrightarrow> n < length (span c))"
  using assms
proof (induction "n - a" arbitrary: a c)
  case 0
  then have na: "n \<le> a" by simp
  then have "[a..<n] = []" by simp
  with 0(2) have "c' = c" by simp
  with na show ?case by (auto simp del: walk.simps)
next
  case (Suc k)
  then have an: "a < n" by simp
  then have upt: "[a..<n] = a # [Suc a..<n]" by (simp add: upt_conv_Cons)
  from Suc.prems obtain reach where reach: "walk blocks a (replicate (length blocks) False) = Some reach"
    unfolding upt by (auto split: option.splits)
  define rs where "rs = add_intervals reach (reachables c)"
  define c1 where "c1 = c\<lparr>span := (span c)[Suc a := word_of_nat (length rs)], reachables := rs\<rparr>"
  from Suc.prems reach have sp: "Suc a < length (span c)" and rest: "tc_loop blocks [Suc a..<n] c1 = Some c'"
    unfolding upt c1_def rs_def by (auto simp: Let_def split: if_splits)
  have rs_eq: "rs = reachables c @ ivs_of blocks a"
    unfolding rs_def ivs_of_def reach using add_intervals_append [of reach "reachables c"] by simp
  have k: "k = n - Suc a" using Suc(2) by simp
  note IH = Suc(1) [OF k rest]
  have r1: "reachables c1 = rs" and s1: "span c1 = (span c)[Suc a := word_of_nat (length rs)]"
    by (simp_all add: c1_def)
  from IH have A: "reachables c' = reachables c @ concat (map (ivs_of blocks) [a..<n])"
    unfolding r1 rs_eq upt by simp
  from IH have B: "length (span c') = length (span c)" unfolding s1 by simp
  have C: "\<forall>j\<le>a. span c' ! j = span c ! j"
  proof (intro allI impI)
    fix j assume "j \<le> a"
    with IH have "span c' ! j = span c1 ! j" by simp
    with \<open>j \<le> a\<close> show "span c' ! j = span c ! j" unfolding s1 by simp
  qed
  have D: "\<forall>b. a \<le> b \<and> b < n \<longrightarrow>
          span c' ! Suc b = word_of_nat (length (reachables c @ concat (map (ivs_of blocks) [a..<Suc b])))"
  proof (intro allI impI)
    fix b assume b: "a \<le> b \<and> b < n"
    show "span c' ! Suc b = word_of_nat (length (reachables c @ concat (map (ivs_of blocks) [a..<Suc b])))"
    proof (cases "b = a")
      case True
      from IH have "span c' ! Suc a = span c1 ! Suc a" by simp
      with sp True show ?thesis unfolding s1 rs_eq by simp
    next
      case False
      with b have b': "Suc a \<le> b \<and> b < n" by simp
      with IH have "span c' ! Suc b =
          word_of_nat (length (reachables c1 @ concat (map (ivs_of blocks) [Suc a..<Suc b])))" by blast
      moreover have "[a..<Suc b] = a # [Suc a..<Suc b]" using b by (simp add: upt_conv_Cons)
      ultimately show ?thesis unfolding r1 rs_eq by simp
    qed
  qed
  have E: "\<forall>b. a \<le> b \<and> b < n \<longrightarrow> walk blocks b (replicate (length blocks) False) \<noteq> None"
  proof (intro allI impI)
    fix b assume b: "a \<le> b \<and> b < n"
    show "walk blocks b (replicate (length blocks) False) \<noteq> None"
    proof (cases "b = a")
      case True
      with reach show ?thesis by simp
    next
      case False
      with b IH show ?thesis by simp
    qed
  qed
  have F: "n < length (span c)"
  proof (cases "Suc a < n")
    case True
    with IH show ?thesis unfolding s1 by simp
  next
    case False
    with an sp show ?thesis by simp
  qed
  from A B C D E F show ?case by blast
qed

lemma upt_split3: "a \<le> s \<Longrightarrow> s < n \<Longrightarrow> [a..<n] = [a..<s] @ s # [Suc s..<n]"
  by (metis le_add_diff_inverse less_imp_le_nat upt_add_eq_append upt_conv_Cons)

lemma tc_reachable:
  assumes tc: "transitiveClosure fn = Some c"
    and lt: "length (reachables c) < 2^32"
    and s: "s < length (Blocks fn)"
  shows "reachable c s = Some (if s = 0 then [] else ivs_of (Blocks fn) s)"
    and "0 < s \<Longrightarrow> walk (Blocks fn) s (replicate (length (Blocks fn)) False) \<noteq> None"
proof -
  let ?n = "length (Blocks fn)" and ?f = "ivs_of (Blocks fn)"
  let ?c0 = "\<lparr>span = replicate (?n + 1) 0, reachables = []\<rparr>"
  let ?L = "\<lambda>k. length (concat (map ?f [1..<k]))"
  from tc s have loop: "tc_loop (Blocks fn) [1..<?n] ?c0 = Some c"
    by (simp add: transitiveClosure_def split: if_splits)
  note T = tc_loop_upt [OF loop]
  from T have R: "reachables c = concat (map ?f [1..<?n])" by (simp del: walk.simps)
  from T have len: "length (span c) = ?n + 1" by (simp del: walk.simps)
  have low: "\<forall>j\<le>1. span c ! j = 0"
  proof (intro allI impI)
    fix j :: nat
    assume j: "j \<le> 1"
    with T have "span c ! j = replicate (?n + 1) 0 ! j" by (simp del: walk.simps replicate.simps)
    also have "\<dots> = 0" using j s by (simp del: replicate.simps)
    finally show "span c ! j = 0" .
  qed
  from T have up: "\<forall>b. 1 \<le> b \<and> b < ?n \<longrightarrow> span c ! Suc b = word_of_nat (?L (Suc b))"
    by (simp del: walk.simps upt_Suc)
  from T show "0 < s \<Longrightarrow> walk (Blocks fn) s (replicate ?n False) \<noteq> None" using s
    by (simp del: walk.simps)
  have sp: "span c ! k = word_of_nat (?L k)" if "1 \<le> k" "k \<le> ?n" for k
  proof (cases "k = 1")
    case True
    with low show ?thesis by simp
  next
    case False
    with that obtain b where "k = Suc b" "1 \<le> b" "b < ?n" by (cases k) auto
    with up show ?thesis by simp
  qed
  show "reachable c s = Some (if s = 0 then [] else ?f s)"
  proof (cases "s = 0")
    case True
    with low len s show ?thesis by (simp add: reachable_def)
  next
    case False
    then have s1: "1 \<le> s" by simp
    have split: "[1..<?n] = [1..<s] @ s # [Suc s..<?n]" using s1 s by (rule upt_split3)
    have Rs: "reachables c = concat (map ?f [1..<s]) @ ?f s @ concat (map ?f [Suc s..<?n])"
      unfolding R by (subst split) simp
    have Ls: "?L (Suc s) = ?L s + length (?f s)" using s1 by (simp del: walk.simps)
    have b1: "?L (Suc s) \<le> length (reachables c)" unfolding Rs using s1 by simp
    with lt have b2: "?L (Suc s) < 2^32" "?L s < 2^32" using Ls by simp_all
    have lo: "unat (span c ! s) = ?L s" using sp [OF s1] s b2 by (simp add: unat_of_nat)
    have hi: "unat (span c ! Suc s) = ?L (Suc s)" using sp [of "Suc s"] s b2 by (simp add: unat_of_nat)
    have "take (?L (Suc s) - ?L s) (drop (?L s) (reachables c)) = ?f s"
      unfolding Rs Ls by simp
    with False lo hi b1 Ls len s show ?thesis by (simp add: reachable_def Let_def)
  qed
qed

lemma of_nat_eq_1: "v < 2^32 \<Longrightarrow> ((word_of_nat v :: 32 word) = 1) = (v = 1)"
proof
  assume v: "v < 2^32" and "(word_of_nat v :: 32 word) = 1"
  then have "unat (word_of_nat v :: 32 word) = unat (1 :: 32 word)" by simp
  with v show "v = 1" by (simp add: unat_of_nat)
qed simp

lemma closure_has:
  assumes tc: "transitiveClosure fn = Some c"
    and n: "length (Blocks fn) \<le> 2^20"
    and lt: "length (reachables c) < 2^32"
    and s: "s < length (Blocks fn)" and v: "v < length (Blocks fn)"
  shows "has fn c s v = Some (v = 1 \<or> Dominates fn s v \<or>
           (0 < s \<and> (\<exists>reach. walk (Blocks fn) s (replicate (length (Blocks fn)) False) = Some reach \<and> reach ! v)))"
proof (cases "v = 1 \<or> Dominates fn s v")
  case True
  with v n show ?thesis by (auto simp: has_def Let_def of_nat_eq_1)
next
  case False
  have v32: "v < 2^32" "v < 2^20" using v n by simp_all
  with False have nshort: "\<not> ((word_of_nat v :: 32 word) = 1 \<or> Dominates fn s v)"
    by (simp add: of_nat_eq_1)
  note R = tc_reachable [OF tc lt s]
  show ?thesis
  proof (cases "s = 0")
    case True
    with R(1) nshort False show ?thesis by (simp add: has_def Let_def)
  next
    case s0: False
    with R(2) obtain reach where reach: "walk (Blocks fn) s (replicate (length (Blocks fn)) False) = Some reach"
      by auto
    from walk_length(1) [OF reach] have lr: "length reach = length (Blocks fn)" by simp
    with n have "length reach \<le> 2^20" by simp
    from add_intervals_dec [OF this] v32 have
      "has_loop (add_intervals reach []) (word_of_nat v) = Some (v < length reach \<and> reach ! v)"
      by (simp add: dec_ok_def)
    with lr v have "has_loop (ivs_of (Blocks fn) s) (word_of_nat v) = Some (reach ! v)"
      by (simp add: ivs_of_def reach del: walk.simps)
    with R(1) s0 nshort False reach show ?thesis by (simp add: has_def Let_def del: walk.simps)
  qed
qed

lemma walk_Some:
  "succs_ok blocks \<Longrightarrow> length visited = length blocks \<Longrightarrow> b < length blocks \<Longrightarrow>
     walk blocks b visited \<noteq> None"
  "succs_ok blocks \<Longrightarrow> length visited' = length blocks \<Longrightarrow> \<forall>s\<in>set succs. s < length blocks \<Longrightarrow>
     walk_succs blocks succs visited' \<noteq> None"
proof (induct blocks b visited and blocks succs visited' rule: walk_walk_succs.induct)
  case (1 blocks b visited)
  from 1(2,4) have "\<forall>s\<in>set (Succs (blocks ! b)). s < length blocks"
    using nth_mem [of b blocks] by (auto simp: succs_ok_def)
  with 1 show ?case by simp
next
  case (2 blocks visited)
  show ?case by simp
next
  case (3 blocks succ rest visited)
  from 3(5,6) have c: "succ < length visited" and r: "\<forall>s\<in>set rest. s < length blocks" by simp_all
  show ?case
  proof (cases "visited ! succ")
    case True
    with 3(1) [OF _ True 3(4,5) r] c show ?thesis by simp
  next
    case False
    from 3(2) [OF _ False 3(4)] c 3(5) obtain w
      where w: "walk blocks succ (visited[succ := True]) = Some w" by auto
    from walk_length(1) [OF w] 3(5) have "length w = length blocks" by simp
    from 3(3) [OF _ False w 3(4) this r] c have "walk_succs blocks rest w \<noteq> None" by simp
    with w c False show ?thesis by (simp del: walk.simps)
  qed
qed

lemma tc_loop_Some:
  "succs_ok blocks \<Longrightarrow> \<forall>b\<in>set bs. b < length blocks \<Longrightarrow> length (span c) = Suc (length blocks) \<Longrightarrow>
     tc_loop blocks bs c \<noteq> None"
proof (induction bs arbitrary: c)
  case Nil
  show ?case by simp
next
  case (Cons b bs)
  from Cons.prems have b: "b < length blocks" by simp
  from walk_Some(1) [OF Cons.prems(1) _ b, of "replicate (length blocks) False"]
  obtain reach where reach: "walk blocks b (replicate (length blocks) False) = Some reach" by auto
  let ?rs = "add_intervals reach (reachables c)"
  let ?c = "c\<lparr>span := (span c)[Suc b := word_of_nat (length ?rs)], reachables := ?rs\<rparr>"
  have "tc_loop blocks bs ?c \<noteq> None"
    using Cons.prems by (intro Cons.IH) simp_all
  with reach b Cons.prems(3) show ?case by (simp add: Let_def del: walk.simps)
qed

lemma transitiveClosure_Some:
  "succs_ok (Blocks fn) \<Longrightarrow> 0 < length (Blocks fn) \<Longrightarrow> transitiveClosure fn \<noteq> None"
  unfolding transitiveClosure_def
  using tc_loop_Some [of "Blocks fn" "[1..<length (Blocks fn)]"
      "\<lparr>span = replicate (length (Blocks fn) + 1) 0, reachables = []\<rparr>"]
  by simp

lemma addInterval_format:
  "addInterval st en rs =
     (if unat (en - st) \<le> 2047 then rs @ [push_bit 20 (en - st) OR st]
      else rs @ [push_bit 31 1 OR st, en])"
proof -
  have "(en - st \<le> (2047 :: 32 word)) = (unat (en - st) \<le> 2047)"
    by (simp add: word_le_nat_alt)
  then show ?thesis
    by (simp add: addInterval_def Let_def lengthBits_def numBits_def)
qed

text \<open>
  C9, for functions of at most \<open>2 ^ 20\<close> blocks whose closure holds fewer than \<open>2 ^ 32\<close>
  interval words. \<open>transitiveClosure\<close> returns a closure \<open>c\<close>, and for all blocks \<open>s\<close> and
  \<open>v\<close> the query \<open>has\<close> returns true when \<open>v\<close> has index 1 or \<open>s\<close> dominates \<open>v\<close>, and
  otherwise exactly when \<open>v\<close> is in the set that the depth-first search from \<open>s\<close>
  marked when the closure was built (nothing is recorded for block 0): the intervals
  decode to exactly that set. \<open>addInterval\<close> writes the one-word format
  \<open>length << 20 | start\<close> for the lengths 0 to 2047 and the two-word format
  \<open>1 << 31 | start\<close>, \<open>end\<close> otherwise.
\<close>

theorem closure_has_correct:
  assumes "succs_ok (Blocks fn)" and "0 < length (Blocks fn)" and "length (Blocks fn) \<le> 2^20"
  shows "\<exists>c. transitiveClosure fn = Some c \<and>
           (length (reachables c) < 2^32 \<longrightarrow>
             (\<forall>s<length (Blocks fn). \<forall>v<length (Blocks fn).
                has fn c s v = Some (v = 1 \<or> Dominates fn s v \<or>
                  (0 < s \<and> (\<exists>reach. walk (Blocks fn) s (replicate (length (Blocks fn)) False) = Some reach
                       \<and> reach ! v)))))
         \<and> addInterval st en rs =
             (if unat (en - st) \<le> 2047 then rs @ [push_bit 20 (en - st) OR st]
              else rs @ [push_bit 31 1 OR st, en])"
proof -
  from transitiveClosure_Some [OF assms(1,2)] obtain c where c: "transitiveClosure fn = Some c"
    by auto
  show ?thesis
  proof (intro exI [of _ c] conjI impI allI)
    show "transitiveClosure fn = Some c" by (rule c)
  next
    fix s v
    assume "length (reachables c) < 2^32" "s < length (Blocks fn)" "v < length (Blocks fn)"
    with c assms(3) show "has fn c s v = Some (v = 1 \<or> Dominates fn s v \<or>
                  (0 < s \<and> (\<exists>reach. walk (Blocks fn) s (replicate (length (Blocks fn)) False) = Some reach
                       \<and> reach ! v)))"
      by (rule closure_has)
  next
    show "addInterval st en rs =
             (if unat (en - st) \<le> 2047 then rs @ [push_bit 20 (en - st) OR st]
              else rs @ [push_bit 31 1 OR st, en])"
      by (rule addInterval_format)
  qed
qed

lemma fn_loop_closure:
  "transitiveClosure fn_loop = Some \<lparr>span = [0, 0, 1, 2, 3], reachables = [1, 1048578, 1048578]\<rparr>"
  by (simp add: transitiveClosure_def fn_loop_def cfg_function_def cfg_block_def upt_conv_Cons
      add_intervals_def addInterval_def Let_def lengthBits_def numBits_def)

lemma fn_loop_walk:
  "walk (Blocks fn_loop) 3 (replicate (length (Blocks fn_loop)) False) = Some [False, False, True, True]"
  by (simp add: fn_loop_def cfg_function_def cfg_block_def)

theorem closure_has_correct_witness:
  "succs_ok (Blocks fn_loop) \<and> 0 < length (Blocks fn_loop) \<and> length (Blocks fn_loop) \<le> 2^20
   \<and> (\<exists>c. transitiveClosure fn_loop = Some c \<and> length (reachables c) < 2^32
          \<and> has fn_loop c 3 2 = Some True \<and> has fn_loop c 3 0 = Some False)"
proof -
  have ok: "succs_ok (Blocks fn_loop)" "0 < length (Blocks fn_loop)" "length (Blocks fn_loop) \<le> 2^20"
    by (simp_all add: succs_ok_def fn_loop_def cfg_function_def cfg_block_def)
  from closure_has_correct [OF ok] obtain c where c: "transitiveClosure fn_loop = Some c"
    and h: "length (reachables c) < 2^32 \<longrightarrow>
             (\<forall>s<length (Blocks fn_loop). \<forall>v<length (Blocks fn_loop).
                has fn_loop c s v = Some (v = 1 \<or> Dominates fn_loop s v \<or>
                  (0 < s \<and> (\<exists>reach. walk (Blocks fn_loop) s (replicate (length (Blocks fn_loop)) False) = Some reach
                       \<and> reach ! v))))"
    by blast
  from c have lt: "length (reachables c) < 2^32" by (auto simp: fn_loop_closure)
  have len: "(2::nat) < length (Blocks fn_loop)" "(0::nat) < length (Blocks fn_loop)"
    "(3::nat) < length (Blocks fn_loop)"
    by (simp_all add: fn_loop_def cfg_function_def)
  have dom: "\<not> Dominates fn_loop 3 2" "\<not> Dominates fn_loop 3 0"
    by (simp_all add: fn_loop_def cfg_function_def)
  from h lt len have "has fn_loop c 3 2 = Some (2 = (1::nat) \<or> Dominates fn_loop 3 2 \<or>
       ((0::nat) < 3 \<and> (\<exists>reach. walk (Blocks fn_loop) 3 (replicate (length (Blocks fn_loop)) False) = Some reach
                       \<and> reach ! 2)))" by blast
  then have a: "has fn_loop c 3 2 = Some True"
    by (simp add: fn_loop_walk dom del: walk.simps)
  from h lt len have "has fn_loop c 3 0 = Some (0 = (1::nat) \<or> Dominates fn_loop 3 0 \<or>
       ((0::nat) < 3 \<and> (\<exists>reach. walk (Blocks fn_loop) 3 (replicate (length (Blocks fn_loop)) False) = Some reach
                       \<and> reach ! 0)))" by blast
  then have b: "has fn_loop c 3 0 = Some False"
    by (simp add: fn_loop_walk dom del: walk.simps)
  from ok c lt a b show ?thesis by simp
qed

lemma scan_False_prefix:
  "scan (replicate k False @ xs) i (- 1) rs = scan xs (i + k) (- 1) rs"
  by (induction k arbitrary: i) simp_all

lemma scan_all_False: "scan (replicate k False) i (- 1) rs = (- 1, rs)"
  using scan_False_prefix [of k "[]" i rs] by simp

lemma of_nat_neq_minus1': "s < 2^32 - 1 \<Longrightarrow> (word_of_nat s :: 32 word) \<noteq> - 1"
proof
  assume s: "s < 2^32 - 1" and eq: "(word_of_nat s :: 32 word) = - 1"
  have "s = unat (word_of_nat s :: 32 word)" using s by (simp add: unat_of_nat)
  also have "\<dots> = unat (- 1 :: 32 word)" using eq by simp
  also have "\<dots> = 2^32 - 1" by (simp add: unsigned_minus_1_eq_mask mask_eq_exp_minus_1)
  finally show False using s by simp
qed

lemma addInterval_single: "addInterval x x rs = rs @ [x]"
  by (simp add: addInterval_def)

lemma update_replicate:
  "b < n \<Longrightarrow> (replicate n False)[b := True] = replicate b False @ True # replicate (n - Suc b) False"
  by (auto simp: list_eq_iff_nth_eq nth_append nth_Cons' nth_list_update)

lemma add_intervals_single:
  assumes "b < n" and "n < 2^32"
  shows "add_intervals ((replicate n False)[b := True]) rs = rs @ [word_of_nat b]"
proof -
  define L where "L = (replicate n False)[b := True]"
  have len: "length L = n" by (simp add: L_def)
  from assms have nm: "(word_of_nat b :: 32 word) \<noteq> - 1" by (intro of_nat_neq_minus1') simp
  have sc: "scan L 0 (- 1) rs = scan (True # replicate (n - Suc b) False) b (- 1) rs"
    using assms(1) by (simp add: L_def update_replicate scan_False_prefix)
  have "add_intervals L rs = rs @ [word_of_nat b]"
  proof (cases "n - Suc b")
    case 0
    with assms(1) have n: "n = Suc b" by simp
    from 0 sc nm have "scan L 0 (- 1) rs = (word_of_nat b, rs)" by simp
    then have "add_intervals L rs = addInterval (word_of_nat b) (word_of_nat n - 1) rs"
      using nm by (simp add: add_intervals_def len)
    also have "(word_of_nat n :: 32 word) - 1 = word_of_nat b" by (simp add: n)
    finally show ?thesis by (simp add: addInterval_single)
  next
    case (Suc m)
    with sc nm have "scan L 0 (- 1) rs = (- 1, rs @ [word_of_nat b])"
      by (simp add: scan_all_False addInterval_single)
    then show ?thesis by (simp add: add_intervals_def)
  qed
  then show ?thesis by (simp only: L_def)
qed

lemma ivs_of_leaf:
  assumes "b < length blocks" and "length blocks < 2^32" and "Succs (blocks ! b) = []"
  shows "ivs_of blocks b = [word_of_nat b]"
  using assms by (simp add: ivs_of_def add_intervals_single)

lemma tc_reachables:
  assumes "transitiveClosure fn = Some c"
  shows "reachables c = concat (map (ivs_of (Blocks fn)) [1..<length (Blocks fn)])"
proof -
  from assms have "tc_loop (Blocks fn) [1..<length (Blocks fn)]
      \<lparr>span = replicate (length (Blocks fn) + 1) 0, reachables = []\<rparr> = Some c"
    by (simp add: transitiveClosure_def split: if_splits)
  from tc_loop_upt [OF this] show ?thesis by (simp del: walk.simps)
qed

lemma length_concat_singletons:
  "\<forall>x\<in>set xs. length (f x) = 1 \<Longrightarrow> length (concat (map f xs)) = length xs"
  by (induction xs) simp_all

lemma fan_blocks:
  "Blocks (fan n) = cfg_block [] [1..<n] # map (\<lambda>i. cfg_block [0] []) [1..<n]"
  by (simp add: fan_def cfg_function_def)

lemma fan_length: "0 < n \<Longrightarrow> length (Blocks (fan n)) = n"
  by (simp add: fan_blocks)

lemma fan_leaf: "1 \<le> b \<Longrightarrow> b < n \<Longrightarrow> Succs (Blocks (fan n) ! b) = []"
  by (simp add: fan_blocks nth_Cons' cfg_block_def)

lemma fan_succs_ok: "succs_ok (Blocks (fan n))"
  by (auto simp: succs_ok_def fan_blocks cfg_block_def)

lemma fan_walk:
  assumes "1 \<le> b" and "b < n"
  shows "walk (Blocks (fan n)) b (replicate n False) = Some ((replicate n False)[b := True])"
proof -
  from assms have "length (Blocks (fan n)) = n" by (simp add: fan_length)
  with assms fan_leaf [OF assms] show ?thesis by (subst walk.simps) simp
qed

lemma fan_has:
  assumes "1048576 < n" and "n < 2^32"
  shows "transitiveClosure (fan n) \<noteq> None \<and>
         has (fan n) (the (transitiveClosure (fan n))) 1048576 0 = Some True"
proof -
  let ?fn = "fan n"
  from assms have n0: "0 < n" by simp
  then have len: "length (Blocks ?fn) = n" by (rule fan_length)
  have "transitiveClosure ?fn \<noteq> None"
    using n0 by (intro transitiveClosure_Some fan_succs_ok) (simp add: len)
  then obtain c where c: "transitiveClosure ?fn = Some c" by blast
  have iv: "ivs_of (Blocks ?fn) b = [word_of_nat b]" if "1 \<le> b" "b < n" for b
    using that assms(2) fan_leaf [OF that] by (intro ivs_of_leaf) (simp_all add: len)
  have "\<forall>x\<in>set [1..<n]. length (ivs_of (Blocks ?fn) x) = 1" using iv by simp
  from length_concat_singletons [OF this] tc_reachables [OF c]
  have "length (reachables c) = length [1..<n]" by (simp add: len)
  with assms(2) have lt: "length (reachables c) < 2^32" by simp
  have s: "1048576 < length (Blocks ?fn)" using assms(1) by (simp add: len)
  from tc_reachable(1) [OF c lt s] iv [of 1048576] assms(1)
  have r: "reachable c 1048576 = Some [1048576]" by simp
  have d: "\<not> Dominates ?fn 1048576 0" by (simp add: fan_def cfg_function_def)
  have "has ?fn c 1048576 0 = Some True"
    by (simp add: has_def r d flagMask_def numMask_def lengthMask_def numBits_def lengthBits_def)
  with c show ?thesis by simp
qed

text \<open>
  C9 as stated, for every function with more than two blocks, fails: take \<open>2 ^ 20 + 1\<close>
  blocks with an edge from block 0 to every other block (no block is dead; block 0
  dominates every block and no other block dominates another). The last block reaches
  only itself and does not dominate block 0; its interval is the word \<open>0x100000\<close>, whose
  low 20 bits are 0 and whose length field is 1, and \<open>has\<close> answers true for block 0.
\<close>

theorem closure_has_large_function:
  "transitiveClosure (fan 1048577) \<noteq> None
   \<and> has (fan 1048577) (the (transitiveClosure (fan 1048577))) 1048576 0 = Some True
   \<and> \<not> Dominates (fan 1048577) 1048576 0
   \<and> walk (Blocks (fan 1048577)) 1048576 (replicate 1048577 False)
       = Some ((replicate 1048577 False)[1048576 := True])
   \<and> \<not> ((replicate 1048577 False)[1048576 := True]) ! 0"
proof -
  have "transitiveClosure (fan 1048577) \<noteq> None
      \<and> has (fan 1048577) (the (transitiveClosure (fan 1048577))) 1048576 0 = Some True"
    using fan_has [of 1048577] by simp
  moreover have "\<not> Dominates (fan 1048577) 1048576 0"
    by (simp add: fan_def cfg_function_def)
  moreover have "walk (Blocks (fan 1048577)) 1048576 (replicate 1048577 False)
       = Some ((replicate 1048577 False)[1048576 := True])"
    by (rule fan_walk) simp_all
  moreover have "\<not> ((replicate 1048577 False)[1048576 := True]) ! 0"
    by (simp add: nth_list_update)
  ultimately show ?thesis by blast
qed

section \<open>Properties of the lifting pass\<close>

subsection \<open>Functions without allocs\<close>













end
